theory Spec2Isabelle
  imports Main "HOL-Library.Multiset"
begin

section \<open>Errors\<close>

text \<open>The exceptions the modelled code raises; each \<open>raise\<close> of the source is an
  \<open>Inl\<close> branch of the model.\<close>

datatype error = TypeError | ValueError | AxiomError | IndexError | InterchangerError | KeyError

section \<open>rigid.py: objects and types\<close>

text \<open>\<open>class Ob\<close>: a name and the winding number \<open>z\<close> (a Python int); equality is
  equality of \<open>(name, z)\<close>.\<close>

record ob =
  name :: string
  z :: int

definition Ob :: "string \<Rightarrow> int \<Rightarrow> ob" where
  "Ob n k = \<lparr>name = n, z = k\<rparr>"

text \<open>\<open>Ob.l\<close> and \<open>Ob.r\<close>.\<close>

definition ob_l :: "ob \<Rightarrow> ob" where
  "ob_l x = Ob (name x) (z x - 1)"

definition ob_r :: "ob \<Rightarrow> ob" where
  "ob_r x = Ob (name x) (z x + 1)"

text \<open>\<open>class Ty\<close>: the list of its objects; \<open>@\<close> is concatenation, \<open>Ty()\<close> the empty
  list, and equality compares the lists of objects.\<close>

type_synonym ty = "ob list"

text \<open>\<open>Ty.l\<close> and \<open>Ty.r\<close>: \<open>Ty(*[x.l for x in self.objects[::-1]])\<close>.\<close>

definition ty_l :: "ty \<Rightarrow> ty" where
  "ty_l t = map ob_l (rev t)"

definition ty_r :: "ty \<Rightarrow> ty" where
  "ty_r t = map ob_r (rev t)"

section \<open>rigid.py: generators\<close>

text \<open>The boxes of a rigid diagram: \<open>class Box\<close> (name, dom, cod, the \<open>_dagger\<close> flag),
  \<open>class Cup\<close>, \<open>class Cap\<close> and \<open>class Swap\<close>, the last three with their \<open>left\<close> and
  \<open>right\<close> types.\<close>

datatype generator =
    AtomicBox string ty ty bool
  | CupBox ty ty
  | CapBox ty ty
  | SwapBox ty ty

text \<open>\<open>box.dom\<close> and \<open>box.cod\<close>, as the constructors pass them to \<open>Box.__init__\<close>:
  \<open>Cup\<close> has \<open>left @ right\<close> and \<open>Ty()\<close>, \<open>Cap\<close> has \<open>Ty()\<close> and \<open>left @ right\<close>,
  \<open>Swap\<close> has \<open>left @ right\<close> and \<open>right @ left\<close>.\<close>

fun gdom :: "generator \<Rightarrow> ty" where
  "gdom (AtomicBox n d c dg) = d"
| "gdom (CupBox l r) = l @ r"
| "gdom (CapBox l r) = []"
| "gdom (SwapBox l r) = l @ r"

fun gcod :: "generator \<Rightarrow> ty" where
  "gcod (AtomicBox n d c dg) = c"
| "gcod (CupBox l r) = []"
| "gcod (CapBox l r) = l @ r"
| "gcod (SwapBox l r) = r @ l"

text \<open>\<open>isinstance(box, Cup)\<close> and \<open>isinstance(box, Cap)\<close>.\<close>

fun is_Cup :: "generator \<Rightarrow> bool" where
  "is_Cup (CupBox l r) = True"
| "is_Cup g = False"

fun is_Cap :: "generator \<Rightarrow> bool" where
  "is_Cap (CapBox l r) = True"
| "is_Cap g = False"

text \<open>\<open>Cup.__init__\<close>. Both arguments are types here, so the two \<open>isinstance\<close> tests pass;
  then the arity test raises \<open>ValueError\<close>, the adjointness test \<open>AxiomError\<close>, and the
  test of the direction of the adjunction \<open>AxiomError\<close> again.\<close>

definition Cup :: "ty \<Rightarrow> ty \<Rightarrow> error + generator" where
  "Cup left right =
     (if length left \<noteq> 1 \<or> length right \<noteq> 1 then Inl ValueError
      else if ty_r left \<noteq> right \<and> left \<noteq> ty_r right then Inl AxiomError
      else if left = ty_r right then Inl AxiomError
      else Inr (CupBox left right))"

text \<open>\<open>Cap.__init__\<close>: the same tests, with the adjunction the other way round.\<close>

definition Cap :: "ty \<Rightarrow> ty \<Rightarrow> error + generator" where
  "Cap left right =
     (if length left \<noteq> 1 \<or> length right \<noteq> 1 then Inl ValueError
      else if left \<noteq> ty_r right \<and> ty_r left \<noteq> right then Inl AxiomError
      else if ty_r left = right then Inl AxiomError
      else Inr (CapBox left right))"

section \<open>quantum.py: bitstrings\<close>

text \<open>The string that \<open>'{:0<length>b}'.format(i)\<close> builds: the binary digits of \<open>i\<close>, padded
  with zeros on the left up to \<open>length\<close> characters, the sign first when \<open>i\<close> is negative.\<close>

fun bin_str :: "nat \<Rightarrow> string" where
  "bin_str n = (if n < 2 then [if n = 0 then CHR ''0'' else CHR ''1'']
                else bin_str (n div 2) @ [if n mod 2 = 0 then CHR ''0'' else CHR ''1''])"

definition format_0b :: "nat \<Rightarrow> int \<Rightarrow> string" where
  "format_0b width i =
     (if i < 0
      then CHR ''-'' # replicate (width - 1 - length (bin_str (nat (- i)))) CHR ''0''
             @ bin_str (nat (- i))
      else replicate (width - length (bin_str (nat i))) CHR ''0'' @ bin_str (nat i))"

text \<open>\<open>int(c)\<close> on one character of that string: a digit, or \<open>ValueError\<close> on the sign.\<close>

definition int_of_char :: "char \<Rightarrow> error + int" where
  "int_of_char c =
     (if c = CHR ''0'' then Inr 0 else if c = CHR ''1'' then Inr 1 else Inl ValueError)"

text \<open>\<open>tuple(map(int, s))\<close>: the first character that is no digit raises.\<close>

fun map_int :: "string \<Rightarrow> error + int list" where
  "map_int [] = Inr []"
| "map_int (c # cs) =
     (case int_of_char c of
        Inl e \<Rightarrow> Inl e
      | Inr d \<Rightarrow> (case map_int cs of Inl e \<Rightarrow> Inl e | Inr ds \<Rightarrow> Inr (d # ds)))"

text \<open>\<open>index2bitstring(i, length)\<close>, for a length that is not negative.\<close>

definition index2bitstring :: "int \<Rightarrow> nat \<Rightarrow> error + int list" where
  "index2bitstring i len =
     (if i \<ge> 2 ^ len then Inl ValueError
      else if i = 0 \<and> len = 0 then Inr []
      else map_int (format_0b len i))"

text \<open>\<open>bitstring2index(bitstring)\<close>:
  \<open>sum(value * 2 ** i for i, value in enumerate(bitstring[::-1]))\<close>.\<close>

definition bitstring2index :: "int list \<Rightarrow> int" where
  "bitstring2index bitstring =
     sum_list (map (\<lambda>(i, v). v * 2 ^ i) (enumerate 0 (rev bitstring)))"

section \<open>quantum.py: classical-quantum dimensions and maps\<close>

text \<open>\<open>discopy.tensor.Dim\<close> is imported by quantum.py: a type whose objects are the
  dimensions, \<open>Dim(1)\<close> being the empty one. It is taken here as the list of its dimensions.\<close>

type_synonym dim = "nat list"

text \<open>\<open>class CQ\<close>: its two fields; \<open>C(dim)\<close> is \<open>CQ(dim, Dim(1))\<close> and \<open>Q(dim)\<close> is
  \<open>CQ(Dim(1), dim)\<close>. The objects that \<open>CQ.__init__\<close> hands to \<open>Ty\<close>, and that \<open>==\<close> compares,
  are computed from these two fields alone.\<close>

record cq =
  classical :: dim
  quantum :: dim

definition CQ :: "dim \<Rightarrow> dim \<Rightarrow> cq" where
  "CQ c q = \<lparr>classical = c, quantum = q\<rparr>"

definition C :: "dim \<Rightarrow> cq" where
  "C d = CQ d []"

definition Q :: "dim \<Rightarrow> cq" where
  "Q d = CQ [] d"

text \<open>\<open>CQ.l\<close> and \<open>CQ.r\<close>.\<close>

definition cq_l :: "cq \<Rightarrow> cq" where
  "cq_l t = CQ (rev (classical t)) (rev (quantum t))"

definition cq_r :: "cq \<Rightarrow> cq" where
  "cq_r t = cq_l t"

text \<open>\<open>BitsAndQubits.l\<close> and \<open>BitsAndQubits.r\<close>: \<open>BitsAndQubits(*self.objects[::-1])\<close>; the
  objects keep their \<open>z\<close>.\<close>

definition bq_l :: "ty \<Rightarrow> ty" where
  "bq_l t = rev t"

definition bq_r :: "ty \<Rightarrow> ty" where
  "bq_r t = bq_l t"

text \<open>\<open>class CQMap\<close>: domain, codomain and the array, kept flat as \<open>np.array\<close> receives it.
  The entries that \<open>measure\<close> builds are Python ints.\<close>

record cqmap =
  cdom :: cq
  ccod :: cq
  array :: "int list"

definition CQMap :: "cq \<Rightarrow> cq \<Rightarrow> int list \<Rightarrow> cqmap" where
  "CQMap d c a = \<lparr>cdom = d, ccod = c, array = a\<rparr>"

text \<open>\<open>CQMap.__init__\<close> wraps the array in a tensor from
  \<open>dom.classical @ dom.quantum @ dom.quantum\<close> to
  \<open>cod.classical @ cod.quantum @ cod.quantum\<close>: these are the axes of the array.\<close>

definition shape :: "cqmap \<Rightarrow> nat list" where
  "shape m = classical (cdom m) @ quantum (cdom m) @ quantum (cdom m)
           @ classical (ccod m) @ quantum (ccod m) @ quantum (ccod m)"

text \<open>The entry of a flat array at a multi-index, in numpy's row-major order, and the
  multi-indices of a shape in that order.\<close>

fun flat_index :: "nat list \<Rightarrow> nat list \<Rightarrow> nat" where
  "flat_index [] [] = 0"
| "flat_index (d # ds) (i # is) = i * prod_list ds + flat_index ds is"
| "flat_index ds is = 0"

definition entry :: "cqmap \<Rightarrow> nat list \<Rightarrow> int" where
  "entry m idx = array m ! flat_index (shape m) idx"

fun indices :: "nat list \<Rightarrow> nat list list" where
  "indices [] = [[]]"
| "indices (d # ds) = concat (map (\<lambda>i. map (\<lambda>is. i # is) (indices ds)) [0..<d])"

text \<open>\<open>CQMap.measure(dim, destructive)\<close>. The product \<open>@\<close> of two maps, which the last case
  uses, is \<open>CQMap.tensor\<close>; it evaluates a tensor functor of \<open>discopy.tensor\<close> and is taken as
  the parameter \<open>tens\<close>.\<close>

fun measure_cq :: "(cqmap \<Rightarrow> cqmap \<Rightarrow> cqmap) \<Rightarrow> dim \<Rightarrow> bool \<Rightarrow> cqmap" where
  "measure_cq tens [] destructive = CQMap (CQ [] []) (CQ [] []) [1]"
| "measure_cq tens [d] destructive =
     (if destructive
      then CQMap (Q [d]) (C [d])
        (concat (map (\<lambda>i. concat (map (\<lambda>j. map (\<lambda>k.
           if i = j \<and> j = k then 1 else 0) [0..<d]) [0..<d])) [0..<d]))
      else CQMap (Q [d]) (CQ [d] [d])
        (concat (map (\<lambda>i. concat (map (\<lambda>j. concat (map (\<lambda>k. concat (map (\<lambda>l. map (\<lambda>m.
           if i = j \<and> j = k \<and> k = l \<and> l = m then 1 else 0)
           [0..<d]) [0..<d])) [0..<d])) [0..<d])) [0..<d])))"
| "measure_cq tens (d # d' # ds) destructive =
     tens (measure_cq tens [d] destructive) (measure_cq tens (d' # ds) destructive)"

section \<open>rigid.py: diagrams\<close>

text \<open>\<open>class Diagram\<close>: domain, codomain, the boxes and their offsets. The offsets of a
  diagram are positions in a type, so they are natural numbers.\<close>

record diagram =
  ddom :: ty
  dcod :: ty
  boxes :: "generator list"
  offsets :: "nat list"

text \<open>\<open>class Id\<close>: \<open>Diagram.__init__(self, dom, dom, [], [])\<close>.\<close>

definition Id_diagram :: "ty \<Rightarrow> diagram" where
  "Id_diagram t = \<lparr>ddom = t, dcod = t, boxes = [], offsets = []\<rparr>"

text \<open>A box as a diagram, \<open>Box.__init__\<close>: \<open>Diagram.__init__(self, dom, cod, [self], [0])\<close>.\<close>

definition box_diagram :: "generator \<Rightarrow> diagram" where
  "box_diagram g = \<lparr>ddom = gdom g, dcod = gcod g, boxes = [g], offsets = [0]\<rparr>"

text \<open>Modelled from the spec: \<open>Diagram.then\<close> (\<open>>>\<close>) is inherited from monoidal.py, which is
  not among the sources. Spec 4.2: sequential composition fails unless \<open>d1.cod == d2.dom\<close>;
  the result concatenates the layers, keeps the offsets, and has \<open>dom = d1.dom\<close> and
  \<open>cod = d2.cod\<close>. Spec 7 files a mismatch of composition domains under \<open>AxiomError\<close>.\<close>

definition then_d :: "diagram \<Rightarrow> diagram \<Rightarrow> error + diagram" where
  "then_d d1 d2 =
     (if dcod d1 \<noteq> ddom d2 then Inl AxiomError
      else Inr \<lparr>ddom = ddom d1, dcod = dcod d2,
                boxes = boxes d1 @ boxes d2, offsets = offsets d1 @ offsets d2\<rparr>)"

text \<open>Modelled from the spec: \<open>Diagram.tensor\<close> (\<open>@\<close>) is inherited from monoidal.py, which
  is not among the sources. Spec 4.2: parallel composition shifts the offsets of \<open>d2\<close> by
  \<open>length(d1.cod)\<close>, is always defined, and concatenates the domains and the codomains.\<close>

definition tensor :: "diagram \<Rightarrow> diagram \<Rightarrow> diagram" where
  "tensor d1 d2 =
     \<lparr>ddom = ddom d1 @ ddom d2, dcod = dcod d1 @ dcod d2,
      boxes = boxes d1 @ boxes d2,
      offsets = offsets d1 @ map (\<lambda>n. n + length (dcod d1)) (offsets d2)\<rparr>"

text \<open>Python's slice \<open>t[i:j]\<close> of a type, for indices that are not negative.\<close>

definition slice :: "ty \<Rightarrow> nat \<Rightarrow> nat \<Rightarrow> ty" where
  "slice t i j = take (j - i) (drop i t)"

text \<open>The loop of \<open>cups\<close>, over the values \<open>i\<close> of \<open>range(len(left))\<close> still to come. The
  constructor of one cup and the exceptions of \<open>>>\<close> end the loop.\<close>

fun cups_loop ::
  "(ty \<Rightarrow> ty \<Rightarrow> error + generator) \<Rightarrow> bool \<Rightarrow> ty \<Rightarrow> ty \<Rightarrow> nat list \<Rightarrow> diagram
   \<Rightarrow> error + diagram" where
  "cups_loop cup_factory reverse left right [] result = Inr result"
| "cups_loop cup_factory reverse left right (i # is) result =
     (let j = length left - i - 1 in
      case cup_factory (slice left j (j + 1)) (slice right i (i + 1)) of
        Inl e \<Rightarrow> Inl e
      | Inr cup \<Rightarrow>
          (let layer = tensor (tensor (Id_diagram (take j left)) (box_diagram cup))
                         (Id_diagram (drop (i + 1) right)) in
           case (if reverse then then_d layer result else then_d result layer) of
             Inl e \<Rightarrow> Inl e
           | Inr result' \<Rightarrow> cups_loop cup_factory reverse left right is result'))"

text \<open>\<open>cups(left, right, ar_factory=Diagram, cup_factory, reverse)\<close>. The arguments are
  types, so the \<open>isinstance\<close> tests pass.\<close>

definition cups_with ::
  "(ty \<Rightarrow> ty \<Rightarrow> error + generator) \<Rightarrow> bool \<Rightarrow> ty \<Rightarrow> ty \<Rightarrow> error + diagram" where
  "cups_with cup_factory reverse left right =
     (if ty_r left \<noteq> right \<and> ty_r right \<noteq> left then Inl AxiomError
      else cups_loop cup_factory reverse left right [0..<length left] (Id_diagram (left @ right)))"

text \<open>\<open>cups(left, right)\<close> with its defaults, and
  \<open>caps(left, right) = cups(left, right, ar_factory, cap_factory, reverse=True)\<close>.\<close>

definition cups :: "ty \<Rightarrow> ty \<Rightarrow> error + diagram" where
  "cups left right = cups_with Cup False left right"

definition caps :: "ty \<Rightarrow> ty \<Rightarrow> error + diagram" where
  "caps left right = cups_with Cap True left right"

section \<open>quantum.py: circuits\<close>

text \<open>\<open>class Box\<close> of quantum.py: name, domain, codomain and the flag \<open>_mixed\<close> that the
  property \<open>is_mixed\<close> of a box returns.\<close>

record qbox =
  qname :: string
  qdom :: ty
  qcod :: ty
  mixed :: bool

text \<open>\<open>class Circuit\<close>: a diagram whose boxes are those of quantum.py.\<close>

record circuit =
  circ_dom :: ty
  circ_cod :: ty
  circ_boxes :: "qbox list"
  circ_offsets :: "nat list"

text \<open>The objects of \<open>bit = BitsAndQubits("bit")\<close> and \<open>qubit = BitsAndQubits("qubit")\<close>.\<close>

definition bit_ob :: ob where
  "bit_ob = Ob ''bit'' 0"

definition qubit_ob :: ob where
  "qubit_ob = Ob ''qubit'' 0"

text \<open>Modelled from the spec: the layers of a diagram are computed by \<open>Diagram.__init__\<close> of
  monoidal.py, which is not among the sources. Spec 3: scanning the layers from \<open>dom\<close>, each
  generator sits at its offset in the current type, and the type after it has the
  generator's codomain spliced in there. A layer is the triple of the type on the left of
  the box, the box, and the type on its right; its codomain is what the scan has reached
  after it.\<close>

type_synonym layer = "ty \<times> qbox \<times> ty"

fun layer_cod :: "layer \<Rightarrow> ty" where
  "layer_cod (left, box, right) = left @ qcod box @ right"

fun scan_layers :: "ty \<Rightarrow> (qbox \<times> nat) list \<Rightarrow> layer list" where
  "scan_layers scan [] = []"
| "scan_layers scan ((box, off) # rest) =
     (let layer = (take off scan, box, drop (off + length (qdom box)) scan)
      in layer # scan_layers (layer_cod layer) rest)"

definition layers :: "circuit \<Rightarrow> layer list" where
  "layers c = scan_layers (circ_dom c) (zip (circ_boxes c) (circ_offsets c))"

text \<open>The values that Python's \<open>and\<close> and \<open>or\<close> pass on in \<open>is_mixed\<close>: a count or a
  truth value. \<open>x and y\<close> is \<open>x\<close> when \<open>x\<close> is falsy and \<open>y\<close> otherwise; \<open>x or y\<close> is \<open>x\<close> when
  \<open>x\<close> is truthy and \<open>y\<close> otherwise.\<close>

datatype pyval = PyInt int | PyBool bool

fun truthy :: "pyval \<Rightarrow> bool" where
  "truthy (PyInt n) = (n \<noteq> 0)"
| "truthy (PyBool b) = b"

definition py_and :: "pyval \<Rightarrow> pyval \<Rightarrow> pyval" where
  "py_and x y = (if truthy x then y else x)"

definition py_or :: "pyval \<Rightarrow> pyval \<Rightarrow> pyval" where
  "py_or x y = (if truthy x then x else y)"

text \<open>\<open>t.count(bit)\<close>: the number of objects of \<open>t\<close> equal to the given one.\<close>

definition count_ob :: "ty \<Rightarrow> ob \<Rightarrow> pyval" where
  "count_ob t x = PyInt (int (count_list t x))"

text \<open>\<open>Circuit.is_mixed\<close>.\<close>

definition is_mixed :: "circuit \<Rightarrow> pyval" where
  "is_mixed c =
     (let both_bits_and_qubits =
        py_or (py_and (count_ob (circ_dom c) bit_ob) (count_ob (circ_dom c) qubit_ob))
          (PyBool (list_ex (\<lambda>layer.
             truthy (py_and (count_ob (layer_cod layer) bit_ob) (count_ob (layer_cod layer) qubit_ob)))
             (layers c)))
      in py_or both_bits_and_qubits (PyBool (list_ex mixed (circ_boxes c))))"

section \<open>rigid.py: normalisation\<close>

text \<open>Modelled from the spec: \<open>Diagram.interchange\<close> is inherited from monoidal.py, which is
  not among the sources. Spec 4.2: two adjacent layers \<open>i\<close>, \<open>i+1\<close> are swapped when their wire
  ranges, computed from the offsets and the widths of domain and codomain, do not overlap;
  overlapping layers are an error. The layer that ends up below the other has its offset
  corrected by the width the other one adds or removes on its left, as the scan of spec 3
  requires. When the first box is neither to the right nor to the left of the second, the
  layers overlap.\<close>

definition swap_adjacent :: "diagram \<Rightarrow> nat \<Rightarrow> error + diagram" where
  "swap_adjacent d i =
     (if length (boxes d) \<le> Suc i then Inl IndexError
      else
        let box0 = boxes d ! i; box1 = boxes d ! Suc i;
            off0 = offsets d ! i; off1 = offsets d ! Suc i
        in if off0 \<ge> off1 + length (gdom box1)
           then Inr (d\<lparr>boxes := (boxes d)[i := box1, Suc i := box0],
                       offsets := (offsets d)
                         [i := off1, Suc i := off0 - length (gdom box1) + length (gcod box1)]\<rparr>)
           else if off1 \<ge> off0 + length (gcod box0)
           then Inr (d\<lparr>boxes := (boxes d)[i := box1, Suc i := box0],
                       offsets := (offsets d)
                         [i := off1 - length (gcod box0) + length (gdom box0), Suc i := off0]\<rparr>)
           else Inl InterchangerError)"

text \<open>Modelled from the spec: \<open>interchange(i, j)\<close> for layers that are not adjacent. Spec 4.3
  (3): the interchange of an obstruction with the cap moves the cap past it, and the layers
  in between shift by one, which is what the re-indexing in \<open>unsnake\<close> accounts for. So
  \<open>interchange(i, j)\<close> takes layer \<open>i\<close> to position \<open>j\<close> by swaps of adjacent layers, and
  fails when one of them fails.\<close>

function interchange :: "diagram \<Rightarrow> nat \<Rightarrow> nat \<Rightarrow> error + diagram" where
  "interchange d i j =
     (if length (boxes d) \<le> i \<or> length (boxes d) \<le> j then Inl IndexError
      else if i = j then Inr d
      else if j < i then
        (case swap_adjacent d (i - 1) of
           Inl e \<Rightarrow> Inl e
         | Inr d' \<Rightarrow> if j = i - 1 then Inr d' else interchange d' (i - 1) j)
      else
        (case swap_adjacent d i of
           Inl e \<Rightarrow> Inl e
         | Inr d' \<Rightarrow> if j = i + 1 then Inr d' else interchange d' (i + 1) j))"
  by pat_completeness auto
termination
  by (relation "measure (\<lambda>(d, i, j). if j < i then i - j else j - i)") auto

text \<open>\<open>follow_wire(diagram, i, j)\<close>: the \<open>while\<close> loop with its two lists of obstructions.
  The result is \<open>(i, j, (left_obstruction, right_obstruction))\<close>.\<close>

function follow_wire_loop ::
  "diagram \<Rightarrow> nat \<Rightarrow> nat \<Rightarrow> nat list \<Rightarrow> nat list \<Rightarrow> nat \<times> nat \<times> nat list \<times> nat list" where
  "follow_wire_loop d i j left_obstruction right_obstruction =
     (if Suc i < length (boxes d) then
        (let i' = Suc i; box = boxes d ! i'; off = offsets d ! i' in
         if off \<le> j \<and> j < off + length (gdom box)
         then (i', j, left_obstruction, right_obstruction)
         else if off \<le> j
         then follow_wire_loop d i' (j + length (gcod box) - length (gdom box))
                (left_obstruction @ [i']) right_obstruction
         else follow_wire_loop d i' j left_obstruction (right_obstruction @ [i']))
      else (length (boxes d), j, left_obstruction, right_obstruction))"
  by pat_completeness auto
termination
  by (relation "measure (\<lambda>(d, i, j, l, r). length (boxes d) - i)") auto

definition follow_wire :: "diagram \<Rightarrow> nat \<Rightarrow> nat \<Rightarrow> nat \<times> nat \<times> nat list \<times> nat list" where
  "follow_wire d i j = follow_wire_loop d i j [] []"

text \<open>\<open>find_snake(diagram)\<close>. One pass of the inner loop, for the left wire of the cap
  (\<open>left_snake\<close>) or the right one, returns the snake when the pair is yankable.\<close>

definition try_wire ::
  "diagram \<Rightarrow> nat \<Rightarrow> bool \<Rightarrow> (nat \<times> nat \<times> (nat list \<times> nat list) \<times> bool) option" where
  "try_wire d cap left_snake =
     (let wire0 = (if left_snake then offsets d ! cap else offsets d ! cap + 1) in
      case follow_wire d cap wire0 of
        (cup, wire, obstructions) \<Rightarrow>
          (let not_yankable =
                 (cup = length (boxes d)
                  \<or> \<not> is_Cup (boxes d ! cup)
                  \<or> left_snake \<and> offsets d ! cup + 1 \<noteq> wire
                  \<or> \<not> left_snake \<and> offsets d ! cup \<noteq> wire)
           in if not_yankable then None else Some (cup, cap, obstructions, left_snake)))"

fun find_snake_from ::
  "diagram \<Rightarrow> nat list \<Rightarrow> (nat \<times> nat \<times> (nat list \<times> nat list) \<times> bool) option" where
  "find_snake_from d [] = None"
| "find_snake_from d (cap # rest) =
     (if \<not> is_Cap (boxes d ! cap) then find_snake_from d rest
      else case try_wire d cap True of
        Some snake \<Rightarrow> Some snake
      | None \<Rightarrow>
          (case try_wire d cap False of
             Some snake \<Rightarrow> Some snake
           | None \<Rightarrow> find_snake_from d rest))"

definition find_snake ::
  "diagram \<Rightarrow> (nat \<times> nat \<times> (nat list \<times> nat list) \<times> bool) option" where
  "find_snake d = find_snake_from d [0..<length (boxes d)]"

text \<open>The four loops of \<open>unsnake\<close>. Each returns the diagrams it yields, the diagram it
  ends with, and the index and the list it has updated; an exception of \<open>interchange\<close>
  ends it.

  Left snake, first loop: \<open>for box in left_obstruction\<close>, interchange with the cap,
  re-index the right obstructions below the box, \<open>cap += 1\<close>.\<close>

fun left_snake_cap_loop ::
  "diagram \<Rightarrow> nat \<Rightarrow> nat list \<Rightarrow> nat list
   \<Rightarrow> error + (diagram list \<times> diagram \<times> nat \<times> nat list)" where
  "left_snake_cap_loop d cap [] right_obstruction = Inr ([], d, cap, right_obstruction)"
| "left_snake_cap_loop d cap (box # rest) right_obstruction =
     (case interchange d box cap of
        Inl e \<Rightarrow> Inl e
      | Inr d' \<Rightarrow>
          (case left_snake_cap_loop d' (cap + 1) rest
                  (map (\<lambda>right_box. if right_box < box then right_box + 1 else right_box)
                     right_obstruction) of
             Inl e \<Rightarrow> Inl e
           | Inr (ys, res) \<Rightarrow> Inr (d' # ys, res)))"

text \<open>Left snake, second loop: \<open>for box in right_obstruction[::-1]\<close>, interchange with the
  cup, \<open>cup -= 1\<close>.\<close>

fun left_snake_cup_loop ::
  "diagram \<Rightarrow> nat \<Rightarrow> nat list \<Rightarrow> error + (diagram list \<times> diagram \<times> nat)" where
  "left_snake_cup_loop d cup [] = Inr ([], d, cup)"
| "left_snake_cup_loop d cup (box # rest) =
     (case interchange d box cup of
        Inl e \<Rightarrow> Inl e
      | Inr d' \<Rightarrow>
          (case left_snake_cup_loop d' (cup - 1) rest of
             Inl e \<Rightarrow> Inl e
           | Inr (ys, res) \<Rightarrow> Inr (d' # ys, res)))"

text \<open>Right snake, first loop: \<open>for box in left_obstruction[::-1]\<close>, interchange with the
  cup, re-index the right obstructions above the box, \<open>cup -= 1\<close>.\<close>

fun right_snake_cup_loop ::
  "diagram \<Rightarrow> nat \<Rightarrow> nat list \<Rightarrow> nat list
   \<Rightarrow> error + (diagram list \<times> diagram \<times> nat \<times> nat list)" where
  "right_snake_cup_loop d cup [] right_obstruction = Inr ([], d, cup, right_obstruction)"
| "right_snake_cup_loop d cup (box # rest) right_obstruction =
     (case interchange d box cup of
        Inl e \<Rightarrow> Inl e
      | Inr d' \<Rightarrow>
          (case right_snake_cup_loop d' (cup - 1) rest
                  (map (\<lambda>right_box. if right_box > box then right_box - 1 else right_box)
                     right_obstruction) of
             Inl e \<Rightarrow> Inl e
           | Inr (ys, res) \<Rightarrow> Inr (d' # ys, res)))"

text \<open>Right snake, second loop: \<open>for box in right_obstruction\<close>, interchange with the cap,
  \<open>cap += 1\<close>.\<close>

fun right_snake_cap_loop ::
  "diagram \<Rightarrow> nat \<Rightarrow> nat list \<Rightarrow> error + (diagram list \<times> diagram \<times> nat)" where
  "right_snake_cap_loop d cap [] = Inr ([], d, cap)"
| "right_snake_cap_loop d cap (box # rest) =
     (case interchange d box cap of
        Inl e \<Rightarrow> Inl e
      | Inr d' \<Rightarrow>
          (case right_snake_cap_loop d' (cap + 1) rest of
             Inl e \<Rightarrow> Inl e
           | Inr (ys, res) \<Rightarrow> Inr (d' # ys, res)))"

text \<open>Modelled from the spec: the type a diagram has reached after its first \<open>k\<close> layers;
  \<open>diagram.layers\<close> holds these types, and is built by monoidal.py, which is not among the
  sources. Spec 3: scanning from \<open>dom\<close>, each generator's codomain is spliced in at its
  offset in place of its domain.\<close>

fun scan_type :: "ty \<Rightarrow> (generator \<times> nat) list \<Rightarrow> ty" where
  "scan_type t [] = t"
| "scan_type t ((box, off) # rest) =
     scan_type (take off t @ gcod box @ drop (off + length (gdom box)) t) rest"

definition scan_to :: "diagram \<Rightarrow> nat \<Rightarrow> ty" where
  "scan_to d k = scan_type (ddom d) (take k (zip (boxes d) (offsets d)))"

text \<open>\<open>unsnake(diagram, cup, cap, obstructions, left_snake)\<close>, drained: the list of the
  diagrams it yields. After the loops the cap and the cup are dropped from the boxes and
  the offsets; \<open>diagram.layers[:cap] >> diagram.layers[cup + 1:]\<close> composes the layers on
  both sides, which raises unless the type before the cap is the type after the cup.\<close>

definition unsnake ::
  "diagram \<Rightarrow> nat \<Rightarrow> nat \<Rightarrow> nat list \<times> nat list \<Rightarrow> bool \<Rightarrow> error + diagram list" where
  "unsnake d cup cap obstructions left_snake =
     (case obstructions of (left_obstruction, right_obstruction) \<Rightarrow>
       (case
          (if left_snake then
             (case left_snake_cap_loop d cap left_obstruction right_obstruction of
                Inl e \<Rightarrow> Inl e
              | Inr (ys1, d1, cap1, right_obstruction1) \<Rightarrow>
                  (case left_snake_cup_loop d1 cup (rev right_obstruction1) of
                     Inl e \<Rightarrow> Inl e
                   | Inr (ys2, d2, cup2) \<Rightarrow> Inr (ys1 @ ys2, d2, cup2, cap1)))
           else
             (case right_snake_cup_loop d cup (rev left_obstruction) right_obstruction of
                Inl e \<Rightarrow> Inl e
              | Inr (ys1, d1, cup1, right_obstruction1) \<Rightarrow>
                  (case right_snake_cap_loop d1 cap right_obstruction1 of
                     Inl e \<Rightarrow> Inl e
                   | Inr (ys2, d2, cap2) \<Rightarrow> Inr (ys1 @ ys2, d2, cup1, cap2))))
        of
          Inl e \<Rightarrow> Inl e
        | Inr (ys, d', cup', cap') \<Rightarrow>
            if scan_to d' cap' \<noteq> scan_to d' (cup' + 1) then Inl AxiomError
            else Inr (ys @
              [\<lparr>ddom = ddom d', dcod = dcod d',
                boxes = take cap' (boxes d') @ drop (cup' + 1) (boxes d'),
                offsets = take cap' (offsets d') @ drop (cup' + 1) (offsets d')\<rparr>])))"

text \<open>The \<open>while True\<close> loop of \<open>normalize\<close>: find a snake, drain \<open>unsnake\<close>, go on from
  the last diagram it yielded. The result is the list of all the diagrams yielded and the
  diagram the loop ends with; \<open>None\<close> stands for a loop that never ends.\<close>

partial_function (option) snake_removal ::
  "diagram \<Rightarrow> diagram list \<Rightarrow> (error + diagram list \<times> diagram) option" where
  "snake_removal d yielded =
     (case find_snake d of
        None \<Rightarrow> Some (Inr (yielded, d))
      | Some (cup, cap, obstructions, left_snake) \<Rightarrow>
          (case unsnake d cup cap obstructions left_snake of
             Inl e \<Rightarrow> Some (Inl e)
           | Inr ds \<Rightarrow> snake_removal (last ds) (yielded @ ds)))"

text \<open>\<open>Diagram.normalize\<close>, drained. After the snakes are gone it yields what
  \<open>monoidal.Diagram.normalize\<close> yields on the remaining diagram; that pass belongs to
  monoidal.py, an external collaborator of this core (spec 4.3 (4)), and is the parameter
  \<open>flatten\<close>.\<close>

definition normalize_d ::
  "(diagram \<Rightarrow> error + diagram list) \<Rightarrow> diagram \<Rightarrow> (error + diagram list) option" where
  "normalize_d flatten d =
     (case snake_removal d [] of
        None \<Rightarrow> None
      | Some (Inl e) \<Rightarrow> Some (Inl e)
      | Some (Inr (yielded, d')) \<Rightarrow>
          (case flatten d' of
             Inl e \<Rightarrow> Some (Inl e)
           | Inr ds \<Rightarrow> Some (Inr (yielded @ ds))))"

text \<open>Modelled from the spec: \<open>Diagram.normal_form\<close> hands over to \<open>normal_form\<close> of
  monoidal.py, which is not among the sources. Spec 4.3: draining the sequence of
  \<open>normalize\<close> yields the normal form, so it is the last diagram of the sequence, and the
  diagram itself when the sequence is empty.\<close>

definition normal_form ::
  "(diagram \<Rightarrow> error + diagram list) \<Rightarrow> diagram \<Rightarrow> (error + diagram) option" where
  "normal_form flatten d =
     (case normalize_d flatten d of
        None \<Rightarrow> None
      | Some (Inl e) \<Rightarrow> Some (Inl e)
      | Some (Inr ds) \<Rightarrow> Some (Inr (last (d # ds))))"

text \<open>\<open>Diagram.transpose(self, left)\<close>. The operands are evaluated from left to right, so
  the caps come first, then the two compositions with the cups in between.\<close>

definition transpose_d :: "diagram \<Rightarrow> bool \<Rightarrow> error + diagram" where
  "transpose_d d left =
     (if left then
        (case caps (ddom d) (ty_l (ddom d)) of
           Inl e \<Rightarrow> Inl e
         | Inr cap_diagram \<Rightarrow>
             (case then_d (tensor (Id_diagram (ty_l (dcod d))) cap_diagram)
                     (tensor (tensor (Id_diagram (ty_l (dcod d))) d) (Id_diagram (ty_l (ddom d)))) of
                Inl e \<Rightarrow> Inl e
              | Inr upper \<Rightarrow>
                  (case cups (ty_l (dcod d)) (dcod d) of
                     Inl e \<Rightarrow> Inl e
                   | Inr cup_diagram \<Rightarrow>
                       then_d upper (tensor cup_diagram (Id_diagram (ty_l (ddom d)))))))
      else
        (case caps (ty_r (ddom d)) (ddom d) of
           Inl e \<Rightarrow> Inl e
         | Inr cap_diagram \<Rightarrow>
             (case then_d (tensor cap_diagram (Id_diagram (ty_r (dcod d))))
                     (tensor (tensor (Id_diagram (ty_r (ddom d))) d) (Id_diagram (ty_r (dcod d)))) of
                Inl e \<Rightarrow> Inl e
              | Inr upper \<Rightarrow>
                  (case cups (dcod d) (ty_r (dcod d)) of
                     Inl e \<Rightarrow> Inl e
                   | Inr cup_diagram \<Rightarrow>
                       then_d upper (tensor (Id_diagram (ty_r (ddom d))) cup_diagram)))))"

section \<open>Auxiliary notions of the proofs\<close>

text \<open>Where the box at position \<open>c\<close> comes from when \<open>interchange\<close> has taken layer \<open>i\<close>
  to position \<open>j\<close>.\<close>

definition moved_from :: "nat \<Rightarrow> nat \<Rightarrow> nat \<Rightarrow> nat" where
  "moved_from i j c =
     (if j < i then (if c < j \<or> i < c then c else if c = j then i else c - 1)
      else (if c < i \<or> j < c then c else if c = j then i else c + 1))"

text \<open>The indices of a list of obstructions lie strictly between the cap and the cup.\<close>

definition between :: "nat \<Rightarrow> nat \<Rightarrow> nat list \<Rightarrow> bool" where
  "between cap cup xs = (\<forall>x \<in> set xs. cap < x \<and> x < cup)"

text \<open>The diagram of the doctest of \<open>normalize\<close>:
  \<open>g @ cap >> f[::-1] @ Id(n.r) @ f >> cup @ h\<close>, with \<open>f: n -> n\<close>, \<open>g: s @ n -> n\<close> and
  \<open>h: n -> n @ s\<close>.\<close>

definition doctest_diagram :: diagram where
  "doctest_diagram =
     \<lparr>ddom = [Ob ''s'' 0, Ob ''n'' 0], dcod = [Ob ''n'' 0, Ob ''s'' 0],
      boxes = [AtomicBox ''g'' [Ob ''s'' 0, Ob ''n'' 0] [Ob ''n'' 0] False,
               CapBox [Ob ''n'' 1] [Ob ''n'' 0],
               AtomicBox ''f'' [Ob ''n'' 0] [Ob ''n'' 0] True,
               AtomicBox ''f'' [Ob ''n'' 0] [Ob ''n'' 0] False,
               CupBox [Ob ''n'' 0] [Ob ''n'' 1],
               AtomicBox ''h'' [Ob ''n'' 0] [Ob ''n'' 0, Ob ''s'' 0] False],
      offsets = [0, 1, 0, 2, 0, 0]\<rparr>"

text \<open>A diagram given by its list of layers, each a box with its offset.\<close>

definition of_layers :: "ty \<Rightarrow> ty \<Rightarrow> (generator \<times> nat) list \<Rightarrow> diagram" where
  "of_layers a b ls = \<lparr>ddom = a, dcod = b, boxes = map fst ls, offsets = map snd ls\<rparr>"

text \<open>The layers of \<open>Id(t).transpose()\<close>: the cap at position \<open>m\<close> and the cup at position
  \<open>i\<close> of the nested caps and cups; and the diagram that is left of it once the first \<open>k\<close>
  snakes have been removed.\<close>

definition snake_cap :: "ty \<Rightarrow> nat \<Rightarrow> generator \<times> nat" where
  "snake_cap t m = (CapBox [ty_r t ! m] [t ! (length t - 1 - m)], m)"

definition snake_cup :: "ty \<Rightarrow> nat \<Rightarrow> generator \<times> nat" where
  "snake_cup t i = (CupBox [t ! (length t - 1 - i)] [ty_r t ! i], 2 * length t - 1 - i)"

definition snakes :: "ty \<Rightarrow> nat \<Rightarrow> diagram" where
  "snakes t k =
     of_layers (ty_r t) (ty_r t)
       (map (snake_cap t) [k..<length t] @ map (snake_cup t) [k..<length t])"

text \<open>The diagram \<open>snakes t k\<close> while its first cup is taken up to its cap: the cup has
  passed the last \<open>p\<close> caps.\<close>

definition snakes_moving :: "ty \<Rightarrow> nat \<Rightarrow> nat \<Rightarrow> diagram" where
  "snakes_moving t k p =
     of_layers (ty_r t) (ty_r t)
       ((snake_cap t k # map (snake_cap t) [Suc k..<length t - p])
        @ (fst (snake_cup t k), 2 * length t - 1 - k - 2 * p)
        # map (snake_cap t) [length t - p..<length t]
        @ map (snake_cup t) [Suc k..<length t])"

text \<open>The loop of \<open>follow_wire\<close> on the layers still to come: \<open>idx\<close> is the index of the
  first of them and \<open>len\<close> the number of boxes of the diagram.\<close>

fun fw_list ::
  "(generator \<times> nat) list \<Rightarrow> nat \<Rightarrow> nat \<Rightarrow> nat list \<Rightarrow> nat list \<Rightarrow> nat
   \<Rightarrow> nat \<times> nat \<times> nat list \<times> nat list" where
  "fw_list [] idx j lo ro len = (len, j, lo, ro)"
| "fw_list ((box, off) # rest) idx j lo ro len =
     (if off \<le> j \<and> j < off + length (gdom box) then (idx, j, lo, ro)
      else if off \<le> j
      then fw_list rest (Suc idx) (j + length (gcod box) - length (gdom box)) (lo @ [idx]) ro len
      else fw_list rest (Suc idx) j lo (ro @ [idx]) len)"

section \<open>Well-typed diagrams\<close>

text \<open>The invariant of a diagram (spec 3): scanning the layers from the domain, the domain of
  each generator is the slice of the current type at its offset, the codomain is spliced in
  there, and the type reached at the end is the codomain of the diagram.\<close>

fun well_typed_from :: "ty \<Rightarrow> (generator \<times> nat) list \<Rightarrow> ty \<Rightarrow> bool" where
  "well_typed_from scan [] cod = (scan = cod)"
| "well_typed_from scan ((box, off) # rest) cod =
     (off + length (gdom box) \<le> length scan
      \<and> take (length (gdom box)) (drop off scan) = gdom box
      \<and> well_typed_from (take off scan @ gcod box @ drop (off + length (gdom box)) scan)
            rest cod)"

definition well_typed :: "diagram \<Rightarrow> bool" where
  "well_typed d =
     (length (offsets d) = length (boxes d)
      \<and> well_typed_from (ddom d) (zip (boxes d) (offsets d)) (dcod d))"

section \<open>rigid.py: functors\<close>

text \<open>The two factories of a functor. \<open>ob_factory\<close> is the class of the types of the target:
  its empty type \<open>ob_factory()\<close>, and \<open>@\<close>, \<open>.l\<close> and \<open>.r\<close> on its types. \<open>ar_factory\<close> is the
  class of the arrows of the target: \<open>id\<close>, \<open>dom\<close>, \<open>cod\<close>, \<open>>>\<close>, \<open>@\<close>, \<open>cups\<close> and \<open>caps\<close>.
  \<open>Functor.__init__\<close> takes both as arguments, with the defaults \<open>Ty\<close> and \<open>Diagram\<close>.\<close>

record 'o ob_factory =
  ty_unit :: 'o
  ty_tensor :: "'o \<Rightarrow> 'o \<Rightarrow> 'o"
  adj_l :: "'o \<Rightarrow> 'o"
  adj_r :: "'o \<Rightarrow> 'o"

record ('o, 'a) ar_factory =
  ar_id :: "'o \<Rightarrow> 'a"
  ar_dom :: "'a \<Rightarrow> 'o"
  ar_cod :: "'a \<Rightarrow> 'o"
  ar_then :: "'a \<Rightarrow> 'a \<Rightarrow> error + 'a"
  ar_tensor :: "'a \<Rightarrow> 'a \<Rightarrow> 'a"
  ar_cups :: "'o \<Rightarrow> 'o \<Rightarrow> error + 'a"
  ar_caps :: "'o \<Rightarrow> 'o \<Rightarrow> error + 'a"

text \<open>\<open>class Functor\<close>: the dictionary \<open>ob\<close> from the basic types, given by their names, to
  types of the target, and the two factories. The image of a box that is neither a cup nor
  a cap is computed from the dictionary \<open>ar\<close> by the functors of monoidal.py and cat.py,
  which are not among the sources; \<open>ar\<close> is taken here as what they compute, a function from
  the boxes to their images, or to the error raised where the functor has no image.\<close>

record ('o, 'a) rigid_functor =
  ob :: "string \<rightharpoonup> 'o"
  ar :: "generator \<Rightarrow> error + 'a"
  ob_factory :: "'o ob_factory"
  ar_factory :: "('o, 'a) ar_factory"

text \<open>The defaults \<open>ob_factory=Ty\<close> and \<open>ar_factory=Diagram\<close>.\<close>

definition Ty_factory :: "ty ob_factory" where
  "Ty_factory = \<lparr>ty_unit = [], ty_tensor = (@), adj_l = ty_l, adj_r = ty_r\<rparr>"

definition Diagram_factory :: "(ty, diagram) ar_factory" where
  "Diagram_factory =
     \<lparr>ar_id = Id_diagram, ar_dom = ddom, ar_cod = dcod, ar_then = then_d, ar_tensor = tensor,
      ar_cups = cups, ar_caps = caps\<rparr>"

text \<open>\<open>adjoint(obj)\<close> in \<open>Functor.__call__\<close>: the image of the object at \<open>z = 0\<close>, then \<open>.l\<close>
  or \<open>.r\<close> as many times as \<open>z\<close> says; a missing key raises \<open>KeyError\<close>.\<close>

definition adjoint :: "('o, 'a) rigid_functor \<Rightarrow> ob \<Rightarrow> error + 'o" where
  "adjoint F obj =
     (case ob F (name obj) of
        None \<Rightarrow> Inl KeyError
      | Some result \<Rightarrow>
          Inr (if z obj < 0 then (adj_l (ob_factory F) ^^ nat (- z obj)) result
               else if z obj > 0 then (adj_r (ob_factory F) ^^ nat (z obj)) result
               else result))"

text \<open>\<open>map(adjoint, diagram.objects)\<close>, consumed from left to right.\<close>

fun adjoints :: "('o, 'a) rigid_functor \<Rightarrow> ty \<Rightarrow> error + 'o list" where
  "adjoints F [] = Inr []"
| "adjoints F (x # xs) =
     (case adjoint F x of
        Inl e \<Rightarrow> Inl e
      | Inr a \<Rightarrow> (case adjoints F xs of Inl e \<Rightarrow> Inl e | Inr as \<Rightarrow> Inr (a # as)))"

text \<open>\<open>Functor.__call__\<close> on a type: \<open>self.ob_factory().tensor(*map(adjoint, ...))\<close>. Modelled
  from the spec: the tensor of several types belongs to monoidal.py, which is not among the
  sources. Spec 3: concatenation is the monoid operation and the empty sequence its unit, so
  the tensor of a list of types is their product from left to right, starting from the
  unit.\<close>

definition functor_ty :: "('o, 'a) rigid_functor \<Rightarrow> ty \<Rightarrow> error + 'o" where
  "functor_ty F t =
     (case adjoints F t of
        Inl e \<Rightarrow> Inl e
      | Inr as \<Rightarrow> Inr (foldl (ty_tensor (ob_factory F)) (ty_unit (ob_factory F)) as))"

text \<open>\<open>Functor.__call__\<close> on a box: the cups or caps of the target on the images of the two
  ends for a \<open>Cup\<close> or \<open>Cap\<close>, and what \<open>super().__call__\<close> returns for any other box.\<close>

definition functor_box :: "('o, 'a) rigid_functor \<Rightarrow> generator \<Rightarrow> error + 'a" where
  "functor_box F g =
     (if is_Cup g then
        (case functor_ty F (slice (gdom g) 0 1) of
           Inl e \<Rightarrow> Inl e
         | Inr a \<Rightarrow>
             (case functor_ty F (drop 1 (gdom g)) of
                Inl e \<Rightarrow> Inl e
              | Inr b \<Rightarrow> ar_cups (ar_factory F) a b))
      else if is_Cap g then
        (case functor_ty F (slice (gcod g) 0 1) of
           Inl e \<Rightarrow> Inl e
         | Inr a \<Rightarrow>
             (case functor_ty F (drop 1 (gcod g)) of
                Inl e \<Rightarrow> Inl e
              | Inr b \<Rightarrow> ar_caps (ar_factory F) a b))
      else ar F g)"

text \<open>Modelled from the spec: \<open>Functor.__call__\<close> on a diagram hands over to the functor of
  monoidal.py, which is not among the sources. Spec 4.4: structural induction, layer by
  layer; identity diagrams map to identities, and the image of every layer is composed in
  the same order and at the same tensor position as in the source, that is between the
  identities on the images of the types on its left and on its right.\<close>

fun functor_loop ::
  "('o, 'a) rigid_functor \<Rightarrow> ty \<Rightarrow> 'a \<Rightarrow> (generator \<times> nat) list \<Rightarrow> error + 'a" where
  "functor_loop F scan result [] = Inr result"
| "functor_loop F scan result ((box, off) # rest) =
     (case functor_ty F (take off scan) of
        Inl e \<Rightarrow> Inl e
      | Inr left \<Rightarrow>
     (case functor_box F box of
        Inl e \<Rightarrow> Inl e
      | Inr img \<Rightarrow>
     (case functor_ty F (drop (off + length (gdom box)) scan) of
        Inl e \<Rightarrow> Inl e
      | Inr right \<Rightarrow>
     (case ar_then (ar_factory F) result
             (ar_tensor (ar_factory F)
                (ar_tensor (ar_factory F) (ar_id (ar_factory F) left) img)
                (ar_id (ar_factory F) right)) of
        Inl e \<Rightarrow> Inl e
      | Inr result' \<Rightarrow>
          functor_loop F (take off scan @ gcod box @ drop (off + length (gdom box)) scan)
            result' rest))))"

definition functor_diagram :: "('o, 'a) rigid_functor \<Rightarrow> diagram \<Rightarrow> error + 'a" where
  "functor_diagram F d =
     (case functor_ty F (ddom d) of
        Inl e \<Rightarrow> Inl e
      | Inr a \<Rightarrow>
          functor_loop F (ddom d) (ar_id (ar_factory F) a) (zip (boxes d) (offsets d)))"

text \<open>Short names for the operations of the target of a functor.\<close>

abbreviation otimes :: "('o, 'a) rigid_functor \<Rightarrow> 'o \<Rightarrow> 'o \<Rightarrow> 'o" where
  "otimes F \<equiv> ty_tensor (ob_factory F)"

abbreviation ident :: "('o, 'a) rigid_functor \<Rightarrow> 'o \<Rightarrow> 'a" where
  "ident F \<equiv> ar_id (ar_factory F)"

abbreviation seq :: "('o, 'a) rigid_functor \<Rightarrow> 'a \<Rightarrow> 'a \<Rightarrow> error + 'a" where
  "seq F \<equiv> ar_then (ar_factory F)"

abbreviation par :: "('o, 'a) rigid_functor \<Rightarrow> 'a \<Rightarrow> 'a \<Rightarrow> 'a" where
  "par F \<equiv> ar_tensor (ar_factory F)"

abbreviation dom_of :: "('o, 'a) rigid_functor \<Rightarrow> 'a \<Rightarrow> 'o" where
  "dom_of F \<equiv> ar_dom (ar_factory F)"

abbreviation cod_of :: "('o, 'a) rigid_functor \<Rightarrow> 'a \<Rightarrow> 'o" where
  "cod_of F \<equiv> ar_cod (ar_factory F)"

section \<open>Well-formed diagrams and the laws of a target\<close>

text \<open>A cup or a cap of a diagram is one that its constructor has built.\<close>

fun constructed :: "generator \<Rightarrow> bool" where
  "constructed (CupBox l r) = (Cup l r = Inr (CupBox l r))"
| "constructed (CapBox l r) = (Cap l r = Inr (CapBox l r))"
| "constructed g = True"

text \<open>A well-formed diagram (spec 3, spec 7: no invalid diagram is ever allowed to exist):
  it is well typed and its cups and caps come from their constructors.\<close>

definition well_formed :: "diagram \<Rightarrow> bool" where
  "well_formed d = (well_typed d \<and> list_all constructed (boxes d))"

text \<open>The functor has an image for every generator of the diagram: for the objects of its
  domain and of its cups and caps, and for its other boxes, whose images go from the image
  of the domain of the box to the image of its codomain.\<close>

definition box_image :: "('o, 'a) rigid_functor \<Rightarrow> generator \<Rightarrow> bool" where
  "box_image F g =
     (if is_Cup g \<or> is_Cap g then \<forall>x \<in> set (gdom g @ gcod g). name x \<in> dom (ob F)
      else \<exists>img. ar F g = Inr img
             \<and> functor_ty F (gdom g) = Inr (ar_dom (ar_factory F) img)
             \<and> functor_ty F (gcod g) = Inr (ar_cod (ar_factory F) img))"

definition has_images :: "('o, 'a) rigid_functor \<Rightarrow> diagram \<Rightarrow> bool" where
  "has_images F d =
     ((\<forall>x \<in> set (ddom d). name x \<in> dom (ob F)) \<and> (\<forall>g \<in> set (boxes d). box_image F g))"

text \<open>The laws of the target that the functor relies on (spec 3: concatenation of types is
  associative with the empty type as unit, a hard invariant; spec 4.2: composition is
  defined when the codomain of the first arrow is the domain of the second, the tensor is
  always defined; spec 2: \<open>l\<close> and \<open>r\<close> are inverse to each other). Types form a monoid and
  \<open>.r\<close> undoes \<open>.l\<close>; composition is typed and associative, with the identities as units on
  the right; the tensor is typed and associative, maps identities to identities, goes
  through a composition on either side of an identity, and is the composition of its two
  whiskerings; cups and caps are typed, and defined on a type and its right adjoint.\<close>

definition monoidal :: "'o ob_factory \<Rightarrow> ('o, 'a) ar_factory \<Rightarrow> bool" where
  "monoidal T A =
     ((\<forall>x y w. ty_tensor T (ty_tensor T x y) w = ty_tensor T x (ty_tensor T y w))
      \<and> (\<forall>x. ty_tensor T (ty_unit T) x = x \<and> ty_tensor T x (ty_unit T) = x)
      \<and> (\<forall>x. adj_r T (adj_l T x) = x)
      \<and> (\<forall>x. ar_dom A (ar_id A x) = x \<and> ar_cod A (ar_id A x) = x)
      \<and> (\<forall>f g. ar_cod A f = ar_dom A g \<longrightarrow>
            (\<exists>h. ar_then A f g = Inr h \<and> ar_dom A h = ar_dom A f \<and> ar_cod A h = ar_cod A g))
      \<and> (\<forall>f. ar_then A f (ar_id A (ar_cod A f)) = Inr f)
      \<and> (\<forall>f g h fg gh. ar_then A f g = Inr fg \<and> ar_then A g h = Inr gh \<longrightarrow>
            ar_then A fg h = ar_then A f gh)
      \<and> (\<forall>f g. ar_dom A (ar_tensor A f g) = ty_tensor T (ar_dom A f) (ar_dom A g)
            \<and> ar_cod A (ar_tensor A f g) = ty_tensor T (ar_cod A f) (ar_cod A g))
      \<and> (\<forall>x y. ar_tensor A (ar_id A x) (ar_id A y) = ar_id A (ty_tensor T x y))
      \<and> (\<forall>f g h. ar_tensor A (ar_tensor A f g) h = ar_tensor A f (ar_tensor A g h))
      \<and> (\<forall>f g h x. ar_then A f g = Inr h \<longrightarrow>
            ar_then A (ar_tensor A f (ar_id A x)) (ar_tensor A g (ar_id A x))
              = Inr (ar_tensor A h (ar_id A x))
            \<and> ar_then A (ar_tensor A (ar_id A x) f) (ar_tensor A (ar_id A x) g)
              = Inr (ar_tensor A (ar_id A x) h))
      \<and> (\<forall>f g. ar_then A (ar_tensor A f (ar_id A (ar_dom A g)))
                  (ar_tensor A (ar_id A (ar_cod A f)) g) = Inr (ar_tensor A f g))
      \<and> (\<forall>x y c. ar_cups A x y = Inr c \<longrightarrow>
            ar_dom A c = ty_tensor T x y \<and> ar_cod A c = ty_unit T)
      \<and> (\<forall>x y c. ar_caps A x y = Inr c \<longrightarrow>
            ar_dom A c = ty_unit T \<and> ar_cod A c = ty_tensor T x y)
      \<and> (\<forall>x. \<exists>c. ar_cups A x (adj_r T x) = Inr c)
      \<and> (\<forall>x. \<exists>c. ar_caps A (adj_r T x) x = Inr c))"

text \<open>The doctest of \<open>class Functor\<close>: the words \<open>Alice @ loves @ Bob\<close>, the grammar
  \<open>Cup(n, n.r) @ Id(s) @ Cup(n.l, n)\<close>, and the functor that sends \<open>loves\<close> to
  \<open>Cap(n.r, n) @ Cap(n, n.l) >> Id(n.r) @ love_box @ Id(n.l)\<close> and the other two boxes and
  the types to themselves, with the default factories. The dictionary has these three keys;
  \<open>other\<close> stands for what the functor returns on every other box.\<close>

definition doctest_words :: diagram where
  "doctest_words =
     \<lparr>ddom = [],
      dcod = [Ob ''n'' 0, Ob ''n'' 1, Ob ''s'' 0, Ob ''n'' (- 1), Ob ''n'' 0],
      boxes = [AtomicBox ''Alice'' [] [Ob ''n'' 0] False,
               AtomicBox ''loves'' [] [Ob ''n'' 1, Ob ''s'' 0, Ob ''n'' (- 1)] False,
               AtomicBox ''Bob'' [] [Ob ''n'' 0] False],
      offsets = [0, 1, 4]\<rparr>"

definition doctest_grammar :: diagram where
  "doctest_grammar =
     \<lparr>ddom = [Ob ''n'' 0, Ob ''n'' 1, Ob ''s'' 0, Ob ''n'' (- 1), Ob ''n'' 0],
      dcod = [Ob ''s'' 0],
      boxes = [CupBox [Ob ''n'' 0] [Ob ''n'' 1], CupBox [Ob ''n'' (- 1)] [Ob ''n'' 0]],
      offsets = [0, 1]\<rparr>"

definition doctest_functor ::
  "(generator \<Rightarrow> error + diagram) \<Rightarrow> (ty, diagram) rigid_functor" where
  "doctest_functor other =
     \<lparr>ob = [''s'' \<mapsto> [Ob ''s'' 0], ''n'' \<mapsto> [Ob ''n'' 0]],
      ar = (\<lambda>g.
        if g = AtomicBox ''Alice'' [] [Ob ''n'' 0] False
        then Inr (box_diagram (AtomicBox ''Alice'' [] [Ob ''n'' 0] False))
        else if g = AtomicBox ''Bob'' [] [Ob ''n'' 0] False
        then Inr (box_diagram (AtomicBox ''Bob'' [] [Ob ''n'' 0] False))
        else if g = AtomicBox ''loves'' [] [Ob ''n'' 1, Ob ''s'' 0, Ob ''n'' (- 1)] False
        then Inr \<lparr>ddom = [], dcod = [Ob ''n'' 1, Ob ''s'' 0, Ob ''n'' (- 1)],
                  boxes = [CapBox [Ob ''n'' 1] [Ob ''n'' 0], CapBox [Ob ''n'' 0] [Ob ''n'' (- 1)],
                           AtomicBox ''loves'' [Ob ''n'' 0, Ob ''n'' 0] [Ob ''s'' 0] False],
                  offsets = [0, 2, 1]\<rparr>
        else other g),
      ob_factory = Ty_factory, ar_factory = Diagram_factory\<rparr>"

text \<open>A functor whose image of \<open>f: a -> b\<close> is the box \<open>g: a -> c @ c\<close>, and whose image of
  \<open>h: a -> a\<close> is \<open>h\<close>.\<close>

definition untyped_functor ::
  "(generator \<Rightarrow> error + diagram) \<Rightarrow> (ty, diagram) rigid_functor" where
  "untyped_functor other =
     \<lparr>ob = [''a'' \<mapsto> [Ob ''a'' 0], ''b'' \<mapsto> [Ob ''b'' 0], ''c'' \<mapsto> [Ob ''c'' 0]],
      ar = (\<lambda>g.
        if g = AtomicBox ''f'' [Ob ''a'' 0] [Ob ''b'' 0] False
        then Inr (box_diagram (AtomicBox ''g'' [Ob ''a'' 0] [Ob ''c'' 0, Ob ''c'' 0] False))
        else if g = AtomicBox ''h'' [Ob ''a'' 0] [Ob ''a'' 0] False
        then Inr (box_diagram (AtomicBox ''h'' [Ob ''a'' 0] [Ob ''a'' 0] False))
        else other g),
      ob_factory = Ty_factory, ar_factory = Diagram_factory\<rparr>"

section \<open>Theorems\<close>

lemma ob_l_r [simp]: "ob_r (ob_l x) = x"
  by (simp add: ob_l_def ob_r_def Ob_def)

lemma ob_r_l [simp]: "ob_l (ob_r x) = x"
  by (simp add: ob_l_def ob_r_def Ob_def)

lemma ty_l_r [simp]: "ty_r (ty_l t) = t"
  by (simp add: ty_l_def ty_r_def rev_map comp_def)

lemma ty_r_l [simp]: "ty_l (ty_r t) = t"
  by (simp add: ty_l_def ty_r_def rev_map comp_def)

text \<open>C3: for every type \<open>t\<close>, \<open>t.l.r == t\<close> and \<open>t.r.l == t\<close>; for every object the left
  adjoint followed by the right adjoint (and conversely) restores it, \<open>l\<close> decrements and
  \<open>r\<close> increments \<open>z\<close>, and both reverse the sequence.\<close>

theorem C3_adjoints_inverse:
  "ty_r (ty_l t) = t \<and> ty_l (ty_r t) = t
   \<and> ob_r (ob_l x) = x \<and> ob_l (ob_r x) = x
   \<and> z (ob_l x) = z x - 1 \<and> z (ob_r x) = z x + 1
   \<and> name (ob_l x) = name x \<and> name (ob_r x) = name x
   \<and> map name (ty_l t) = rev (map name t) \<and> map name (ty_r t) = rev (map name t)
   \<and> map z (ty_l t) = rev (map (\<lambda>x. z x - 1) t) \<and> map z (ty_r t) = rev (map (\<lambda>x. z x + 1) t)"
proof -
  have inv: "ty_r (ty_l t) = t \<and> ty_l (ty_r t) = t \<and> ob_r (ob_l x) = x \<and> ob_l (ob_r x) = x"
    by simp
  have fields: "z (ob_l x) = z x - 1 \<and> z (ob_r x) = z x + 1
      \<and> name (ob_l x) = name x \<and> name (ob_r x) = name x"
    by (simp add: ob_l_def ob_r_def Ob_def)
  have seqs: "map name (ty_l t) = rev (map name t) \<and> map name (ty_r t) = rev (map name t)
      \<and> map z (ty_l t) = rev (map (\<lambda>x. z x - 1) t) \<and> map z (ty_r t) = rev (map (\<lambda>x. z x + 1) t)"
    by (simp add: ty_l_def ty_r_def ob_l_def ob_r_def Ob_def rev_map comp_def)
  from inv fields seqs show ?thesis by blast
qed

text \<open>C10: for every \<open>CQ\<close> type \<open>t\<close>, \<open>t.l == t.r\<close>, both reversing the classical and the
  quantum dimensions, and for every \<open>BitsAndQubits\<close> type \<open>u\<close>, \<open>u.l == u.r\<close>, both reversing
  the objects; hence \<open>t.l.l == t\<close> and \<open>u.l.l == u\<close>.\<close>

theorem C10_self_dual:
  "cq_l t = cq_r t
   \<and> classical (cq_l t) = rev (classical t) \<and> quantum (cq_l t) = rev (quantum t)
   \<and> cq_l (cq_l t) = t
   \<and> bq_l u = bq_r u \<and> bq_l u = rev u \<and> bq_l (bq_l u) = u"
  by (simp add: cq_l_def cq_r_def CQ_def bq_l_def bq_r_def)

lemma Cup_arity: "length left \<noteq> 1 \<or> length right \<noteq> 1 \<Longrightarrow> Cup left right = Inl ValueError"
  by (simp add: Cup_def)

lemma Cap_arity: "length left \<noteq> 1 \<or> length right \<noteq> 1 \<Longrightarrow> Cap left right = Inl ValueError"
  by (simp add: Cap_def)

text \<open>C7: constructing \<open>Cup(left, right)\<close> or \<open>Cap(left, right)\<close> with an operand that is not
  a single atomic type (\<open>len(left) != 1 or len(right) != 1\<close>) raises the arity error. The
  code raises it as a \<open>ValueError\<close>, and no other path of the two constructors raises
  \<open>ValueError\<close>: the constructor raises it exactly when the arity is wrong.\<close>

theorem C7_cup_cap_arity:
  "(length left \<noteq> 1 \<or> length right \<noteq> 1 \<longrightarrow>
      Cup left right = Inl ValueError \<and> Cap left right = Inl ValueError)
   \<and> (Cup left right = Inl ValueError \<longleftrightarrow> length left \<noteq> 1 \<or> length right \<noteq> 1)
   \<and> (Cap left right = Inl ValueError \<longleftrightarrow> length left \<noteq> 1 \<or> length right \<noteq> 1)"
  by (simp add: Cup_def Cap_def)

theorem C7_cup_cap_arity_witness:
  "length [Ob ''a'' 0, Ob ''b'' 0] \<noteq> 1
   \<and> Cup [Ob ''a'' 0, Ob ''b'' 0] [Ob ''a'' 1] = Inl ValueError
   \<and> Cap [Ob ''a'' 0, Ob ''b'' 0] [Ob ''a'' 1] = Inl ValueError"
  using C7_cup_cap_arity [of "[Ob ''a'' 0, Ob ''b'' 0]" "[Ob ''a'' 1]"] by simp

text \<open>C5: \<open>CQMap.measure(Dim(2), destructive=True)\<close> is a map from \<open>Q(Dim(2))\<close> to
  \<open>C(Dim(2))\<close>; its array has the three axes \<open>(2, 2, 2)\<close>, holds only the values 0 and 1, and
  its nonzero entries are the two at \<open>(0,0,0)\<close> and \<open>(1,1,1)\<close>, each equal to 1.\<close>

theorem C5_measure_dim2:
  "cdom (measure_cq tens [2] True) = Q [2]
   \<and> ccod (measure_cq tens [2] True) = C [2]
   \<and> shape (measure_cq tens [2] True) = [2, 2, 2]
   \<and> array (measure_cq tens [2] True) = [1, 0, 0, 0, 0, 0, 0, 1]
   \<and> set (array (measure_cq tens [2] True)) = {0, 1}
   \<and> filter (\<lambda>idx. entry (measure_cq tens [2] True) idx \<noteq> 0) (indices [2, 2, 2])
       = [[0, 0, 0], [1, 1, 1]]
   \<and> entry (measure_cq tens [2] True) [0, 0, 0] = 1
   \<and> entry (measure_cq tens [2] True) [1, 1, 1] = 1"
proof -
  have two: "[0..<2] = [0, Suc 0]"
    by (simp add: upt_rec)
  have m: "measure_cq tens [2] True = CQMap (Q [2]) (C [2]) [1, 0, 0, 0, 0, 0, 0, 1]"
    by (simp add: two)
  have sh: "shape (measure_cq tens [2] True) = [2, 2, 2]"
    by (simp only: m) (simp add: shape_def CQMap_def Q_def C_def CQ_def)
  have idx: "indices [2, 2, 2] =
      [[0,0,0],[0,0,1],[0,1,0],[0,1,1],[1,0,0],[1,0,1],[1,1,0],[1,1,1]]"
    by (simp add: two)
  have nz: "filter (\<lambda>idx. entry (measure_cq tens [2] True) idx \<noteq> 0) (indices [2, 2, 2])
       = [[0, 0, 0], [1, 1, 1]]"
    unfolding idx entry_def sh by (simp only: m) (simp add: CQMap_def)
  have e0: "entry (measure_cq tens [2] True) [0, 0, 0] = 1"
    unfolding entry_def sh by (simp only: m) (simp add: CQMap_def)
  have e1: "entry (measure_cq tens [2] True) [1, 1, 1] = 1"
    unfolding entry_def sh by (simp only: m) (simp add: CQMap_def)
  have vals: "set (array (measure_cq tens [2] True)) = {0, 1}"
    by (simp only: m) (auto simp add: CQMap_def)
  show ?thesis
    using sh nz e0 e1 vals by (simp only: m) (simp add: CQMap_def)
qed

subsection \<open>Bitstrings\<close>

lemma b2i_snoc: "bitstring2index (bs @ [d]) = 2 * bitstring2index bs + d"
proof -
  have "sum_list (map (\<lambda>(i, v). v * 2 ^ i) (enumerate (Suc 0) xs))
      = 2 * sum_list (map (\<lambda>(i, v). v * 2 ^ i) (enumerate 0 xs))" for xs :: "int list"
    by (induction xs rule: rev_induct)
      (simp_all add: enumerate_Suc_eq enumerate_append_eq comp_def case_prod_beta algebra_simps)
  then show ?thesis
    by (simp add: bitstring2index_def)
qed

lemma b2i_Nil: "bitstring2index [] = 0"
  by (simp add: bitstring2index_def)

lemma b2i_zeros: "bitstring2index (replicate k 0 @ bs) = bitstring2index bs"
proof (induction bs rule: rev_induct)
  case Nil
  have "bitstring2index (replicate k 0) = 0"
  proof (induction k)
    case 0
    show ?case by (simp add: b2i_Nil)
  next
    case (Suc k)
    have "replicate (Suc k) (0::int) = replicate k 0 @ [0]"
      by (simp add: replicate_append_same)
    then show ?case using Suc b2i_snoc [of "replicate k 0" 0] by simp
  qed
  then show ?case by (simp add: b2i_Nil)
next
  case (snoc x xs)
  then show ?case
    using b2i_snoc [of "replicate k 0 @ xs" x] by (simp add: b2i_snoc)
qed

lemma map_int_append:
  "map_int s1 = Inr b1 \<Longrightarrow> map_int s2 = Inr b2 \<Longrightarrow> map_int (s1 @ s2) = Inr (b1 @ b2)"
  by (induction s1 arbitrary: b1) (auto split: sum.splits)

lemma map_int_zeros: "map_int (replicate k CHR ''0'') = Inr (replicate k 0)"
  by (induction k) (simp_all add: int_of_char_def)

declare bin_str.simps [simp del]

lemma bin_str_digits:
  "\<exists>bs. map_int (bin_str n) = Inr bs \<and> length bs = length (bin_str n)
        \<and> set bs \<subseteq> {0, 1} \<and> bitstring2index bs = int n"
proof (induction n rule: bin_str.induct)
  case (1 n)
  show ?case
  proof (cases "n < 2")
    case True
    then have "n = 0 \<or> n = 1" by auto
    then show ?thesis
      by (auto simp add: bin_str.simps [of n] int_of_char_def bitstring2index_def)
  next
    case False
    with 1 obtain bs where bs: "map_int (bin_str (n div 2)) = Inr bs"
      "length bs = length (bin_str (n div 2))" "set bs \<subseteq> {0, 1}"
      "bitstring2index bs = int (n div 2)"
      by blast
    let ?d = "if n mod 2 = 0 then 0 else (1::int)"
    have last: "map_int [if n mod 2 = 0 then CHR ''0'' else CHR ''1''] = Inr [?d]"
      by (simp add: int_of_char_def)
    have "map_int (bin_str n) = Inr (bs @ [?d])"
      using False map_int_append [OF bs(1) last] by (simp add: bin_str.simps [of n])
    moreover have "length (bs @ [?d]) = length (bin_str n)"
      using False bs(2) by (simp add: bin_str.simps [of n])
    moreover have "set (bs @ [?d]) \<subseteq> {0, 1}"
      using bs(3) by auto
    moreover have "bitstring2index (bs @ [?d]) = int n"
      using bs(4) by (simp add: b2i_snoc) presburger
    ultimately show ?thesis by blast
  qed
qed

lemma bin_str_length: "0 < len \<Longrightarrow> n < 2 ^ len \<Longrightarrow> length (bin_str n) \<le> len"
proof (induction n arbitrary: len rule: bin_str.induct)
  case (1 n)
  show ?case
  proof (cases "n < 2")
    case True
    then show ?thesis using 1(2) by (simp add: bin_str.simps [of n])
  next
    case False
    then obtain k where k: "len = Suc k" using 1(2) by (cases len) auto
    have "0 < k" using False 1(3) k by (cases k) auto
    moreover have "n div 2 < 2 ^ k" using 1(3) k by auto
    ultimately have "length (bin_str (n div 2)) \<le> k"
      using 1(1) False by blast
    then show ?thesis using False k by (simp add: bin_str.simps [of n])
  qed
qed

text \<open>C9: for every length \<open>n\<close> and every index \<open>0 <= i < 2**n\<close>,
  \<open>index2bitstring(i, n)\<close> returns a bitstring of exactly \<open>n\<close> entries, each 0 or 1, which
  \<open>bitstring2index\<close> maps back to \<open>i\<close>; and \<open>index2bitstring(i, n)\<close> raises \<open>ValueError\<close>
  whenever \<open>i >= 2**n\<close>.\<close>

theorem C9_bitstring_round_trip:
  "(0 \<le> i \<and> i < 2 ^ n \<longrightarrow>
      (\<exists>bs. index2bitstring i n = Inr bs \<and> bitstring2index bs = i
            \<and> length bs = n \<and> set bs \<subseteq> {0, 1}))
   \<and> (2 ^ n \<le> i \<longrightarrow> index2bitstring i n = Inl ValueError)"
proof (intro conjI impI)
  assume "2 ^ n \<le> i"
  then show "index2bitstring i n = Inl ValueError"
    by (simp add: index2bitstring_def)
next
  assume range: "0 \<le> i \<and> i < 2 ^ n"
  show "\<exists>bs. index2bitstring i n = Inr bs \<and> bitstring2index bs = i
            \<and> length bs = n \<and> set bs \<subseteq> {0, 1}"
  proof (cases "n = 0")
    case True
    with range have "i = 0" by simp
    with True show ?thesis
      by (simp add: index2bitstring_def b2i_Nil)
  next
    case False
    let ?s = "bin_str (nat i)"
    obtain bs where bs: "map_int ?s = Inr bs" "length bs = length ?s"
      "set bs \<subseteq> {0, 1}" "bitstring2index bs = int (nat i)"
      using bin_str_digits [of "nat i"] by blast
    have "nat i < 2 ^ n"
      using range by (simp add: nat_less_iff)
    then have len: "length ?s \<le> n"
      using False bin_str_length [of n "nat i"] by simp
    let ?k = "n - length ?s"
    have "index2bitstring i n = map_int (replicate ?k CHR ''0'' @ ?s)"
      using range False by (simp add: index2bitstring_def format_0b_def)
    then have "index2bitstring i n = Inr (replicate ?k 0 @ bs)"
      using map_int_append [OF map_int_zeros bs(1)] by simp
    moreover have "bitstring2index (replicate ?k 0 @ bs) = i"
      using bs(4) range by (simp add: b2i_zeros)
    moreover have "length (replicate ?k 0 @ bs) = n"
      using len bs(2) by simp
    moreover have "set (replicate ?k 0 @ bs) \<subseteq> {0, 1}"
      using bs(3) by auto
    ultimately show ?thesis by blast
  qed
qed

theorem C9_bitstring_round_trip_witness:
  "(0::int) \<le> 42 \<and> (42::int) < 2 ^ 8
   \<and> (\<exists>bs. index2bitstring 42 8 = Inr bs \<and> bitstring2index bs = 42
            \<and> length bs = 8 \<and> set bs \<subseteq> {0, 1})
   \<and> (2::int) ^ 8 \<le> 256 \<and> index2bitstring 256 8 = Inl ValueError"
  using C9_bitstring_round_trip [of 42 8] C9_bitstring_round_trip [of 256 8] by simp

text \<open>The two doctests of the source.\<close>

lemma index2bitstring_example: "index2bitstring 42 8 = Inr [0, 0, 1, 0, 1, 0, 1, 0]"
  by code_simp

lemma bitstring2index_example: "bitstring2index [0, 0, 1, 0, 1, 0, 1, 0] = 42"
  by code_simp

subsection \<open>Mixed circuits\<close>

lemma truthy_count: "truthy (count_ob t x) \<longleftrightarrow> x \<in> set t"
  by (simp add: count_ob_def count_list_0_iff)

lemma truthy_py_and: "truthy (py_and x y) \<longleftrightarrow> truthy x \<and> truthy y"
  by (simp add: py_and_def)

lemma truthy_py_or: "truthy (py_or x y) \<longleftrightarrow> truthy x \<or> truthy y"
  by (simp add: py_or_def)

lemma scan_layers_names:
  "\<forall>x \<in> set scan. name x = n \<Longrightarrow>
   \<forall>b \<in> set bs. \<forall>x \<in> set (qcod (fst b)). name x = n \<Longrightarrow>
   l \<in> set (scan_layers scan bs) \<Longrightarrow> x \<in> set (layer_cod l) \<Longrightarrow> name x = n"
proof (induction bs arbitrary: scan)
  case Nil
  then show ?case by simp
next
  case (Cons b bs)
  obtain box off where b: "b = (box, off)" by (cases b)
  let ?layer = "(take off scan, box, drop (off + length (qdom box)) scan)"
  have cod: "\<forall>x \<in> set (layer_cod ?layer). name x = n"
    using Cons.prems(1,2) b by (auto dest: in_set_takeD in_set_dropD)
  show ?case
  proof (cases "l = ?layer")
    case True
    with cod Cons.prems(4) show ?thesis by blast
  next
    case False
    with Cons.prems(3) b have "l \<in> set (scan_layers (layer_cod ?layer) bs)"
      by (simp add: Let_def)
    with Cons.IH [OF cod] Cons.prems(2,4) show ?thesis by simp
  qed
qed

lemma single_kind_not_mixed:
  assumes d: "\<forall>x \<in> set (circ_dom c). name x = n"
    and b: "\<forall>b \<in> set (circ_boxes c). \<not> mixed b \<and> (\<forall>x \<in> set (qdom b @ qcod b). name x = n)"
  shows "\<not> truthy (is_mixed c)"
proof -
  have names: "name x = n" if "l \<in> set (layers c)" "x \<in> set (layer_cod l)" for l x
  proof -
    have z: "\<forall>b \<in> set (zip (circ_boxes c) (circ_offsets c)). \<forall>x \<in> set (qcod (fst b)). name x = n"
      using b by (auto dest: set_zip_leftD)
    from that(1) have "l \<in> set (scan_layers (circ_dom c) (zip (circ_boxes c) (circ_offsets c)))"
      by (simp add: layers_def)
    from scan_layers_names [OF d z this that(2)] show ?thesis .
  qed
  have ne: "name bit_ob \<noteq> name qubit_ob"
    by (simp add: bit_ob_def qubit_ob_def Ob_def)
  have "\<not> (bit_ob \<in> set (circ_dom c) \<and> qubit_ob \<in> set (circ_dom c))"
    using d ne by metis
  moreover have "\<not> (\<exists>l \<in> set (layers c). bit_ob \<in> set (layer_cod l) \<and> qubit_ob \<in> set (layer_cod l))"
    using names ne by metis
  moreover have "\<not> (\<exists>b \<in> set (circ_boxes c). mixed b)"
    using b by blast
  ultimately show ?thesis
    by (simp add: is_mixed_def Let_def truthy_py_or truthy_py_and truthy_count list_ex_iff)
qed

lemma is_mixed_value:
  "is_mixed c =
     (if bit_ob \<in> set (circ_dom c) \<and> qubit_ob \<in> set (circ_dom c)
      then PyInt (int (count_list (circ_dom c) qubit_ob))
      else PyBool
        ((\<exists>l \<in> set (layers c). bit_ob \<in> set (layer_cod l) \<and> qubit_ob \<in> set (layer_cod l))
         \<or> (\<exists>b \<in> set (circ_boxes c). mixed b)))"
proof -
  have c: "truthy (count_ob t x) \<longleftrightarrow> x \<in> set t" for t x
    by (rule truthy_count)
  have n: "count_ob t x = PyInt (int (count_list t x))" for t x
    by (simp add: count_ob_def)
  show ?thesis
  proof (cases "bit_ob \<in> set (circ_dom c) \<and> qubit_ob \<in> set (circ_dom c)")
    case True
    then have "truthy (count_ob (circ_dom c) bit_ob)" "truthy (count_ob (circ_dom c) qubit_ob)"
      by (simp_all add: c)
    then show ?thesis
      using True by (simp add: is_mixed_def Let_def py_or_def py_and_def n)
  next
    case False
    then have "\<not> truthy (count_ob (circ_dom c) bit_ob) \<or> \<not> truthy (count_ob (circ_dom c) qubit_ob)"
      by (simp add: c)
    then show ?thesis
      using False
      by (auto simp add: is_mixed_def Let_def py_or_def py_and_def c list_ex_iff)
  qed
qed

text \<open>C8, as stated, fails. Python's \<open>and\<close> and \<open>or\<close> hand on their operands, so
  \<open>is_mixed\<close> is not always \<open>True\<close> or \<open>False\<close>: on \<open>Id(bit @ qubit ** 2)\<close> it is the count 2.
  And the circuit \<open>Id(bit) @ H\<close> is built from one box, which is qubit-only and not mixed,
  yet \<open>bit\<close> and \<open>qubit\<close> both occur in its domain and \<open>is_mixed\<close> is 1, a truthy value.\<close>

theorem C8_is_mixed_counterexample:
  "is_mixed \<lparr>circ_dom = [bit_ob, qubit_ob], circ_cod = [bit_ob, qubit_ob],
             circ_boxes = [\<lparr>qname = ''H'', qdom = [qubit_ob], qcod = [qubit_ob],
                            mixed = False\<rparr>],
             circ_offsets = [1]\<rparr> = PyInt 1
   \<and> is_mixed \<lparr>circ_dom = [bit_ob, qubit_ob, qubit_ob],
               circ_cod = [bit_ob, qubit_ob, qubit_ob],
               circ_boxes = [], circ_offsets = []\<rparr> = PyInt 2"
  by (simp add: is_mixed_def Let_def layers_def count_ob_def py_and_def py_or_def bit_ob_def
      qubit_ob_def Ob_def)

text \<open>C8, amended: for every circuit \<open>c\<close>, \<open>c.is_mixed\<close> is truthy if and only if \<open>bit\<close> and
  \<open>qubit\<close> both occur in its domain or in the codomain of some layer, or some box of \<open>c\<close> has
  its \<open>is_mixed\<close> flag set; its value is the number of qubits of the domain when \<open>bit\<close> and
  \<open>qubit\<close> both occur in the domain, and \<open>True\<close> or \<open>False\<close> otherwise; for a circuit whose
  domain and boxes are qubit-only (or bit-only), with no box flagged as mixed, it is
  \<open>False\<close>.\<close>

theorem C8_is_mixed:
  "(truthy (is_mixed c) \<longleftrightarrow>
      (bit_ob \<in> set (circ_dom c) \<and> qubit_ob \<in> set (circ_dom c))
      \<or> (\<exists>l \<in> set (layers c). bit_ob \<in> set (layer_cod l) \<and> qubit_ob \<in> set (layer_cod l))
      \<or> (\<exists>b \<in> set (circ_boxes c). mixed b))
   \<and> is_mixed c =
       (if bit_ob \<in> set (circ_dom c) \<and> qubit_ob \<in> set (circ_dom c)
        then PyInt (int (count_list (circ_dom c) qubit_ob))
        else PyBool
          ((\<exists>l \<in> set (layers c). bit_ob \<in> set (layer_cod l) \<and> qubit_ob \<in> set (layer_cod l))
           \<or> (\<exists>b \<in> set (circ_boxes c). mixed b)))
   \<and> ((\<forall>x \<in> set (circ_dom c). name x = ''qubit'')
        \<and> (\<forall>b \<in> set (circ_boxes c). \<not> mixed b
              \<and> (\<forall>x \<in> set (qdom b @ qcod b). name x = ''qubit''))
       \<longrightarrow> is_mixed c = PyBool False)
   \<and> ((\<forall>x \<in> set (circ_dom c). name x = ''bit'')
        \<and> (\<forall>b \<in> set (circ_boxes c). \<not> mixed b
              \<and> (\<forall>x \<in> set (qdom b @ qcod b). name x = ''bit''))
       \<longrightarrow> is_mixed c = PyBool False)"
proof (intro conjI impI)
  show "truthy (is_mixed c) \<longleftrightarrow>
      (bit_ob \<in> set (circ_dom c) \<and> qubit_ob \<in> set (circ_dom c))
      \<or> (\<exists>l \<in> set (layers c). bit_ob \<in> set (layer_cod l) \<and> qubit_ob \<in> set (layer_cod l))
      \<or> (\<exists>b \<in> set (circ_boxes c). mixed b)"
    by (simp add: is_mixed_def Let_def truthy_py_or truthy_py_and truthy_count list_ex_iff)
next
  show "is_mixed c =
       (if bit_ob \<in> set (circ_dom c) \<and> qubit_ob \<in> set (circ_dom c)
        then PyInt (int (count_list (circ_dom c) qubit_ob))
        else PyBool
          ((\<exists>l \<in> set (layers c). bit_ob \<in> set (layer_cod l) \<and> qubit_ob \<in> set (layer_cod l))
           \<or> (\<exists>b \<in> set (circ_boxes c). mixed b)))"
    by (rule is_mixed_value)
next
  assume a: "(\<forall>x \<in> set (circ_dom c). name x = ''qubit'')
        \<and> (\<forall>b \<in> set (circ_boxes c). \<not> mixed b
              \<and> (\<forall>x \<in> set (qdom b @ qcod b). name x = ''qubit''))"
  then have "\<not> truthy (is_mixed c)"
    using single_kind_not_mixed [of c "''qubit''"] by blast
  moreover from a have "bit_ob \<notin> set (circ_dom c)"
    by (auto simp add: bit_ob_def Ob_def)
  ultimately show "is_mixed c = PyBool False"
    by (simp add: is_mixed_value)
next
  assume a: "(\<forall>x \<in> set (circ_dom c). name x = ''bit'')
        \<and> (\<forall>b \<in> set (circ_boxes c). \<not> mixed b
              \<and> (\<forall>x \<in> set (qdom b @ qcod b). name x = ''bit''))"
  then have "\<not> truthy (is_mixed c)"
    using single_kind_not_mixed [of c "''bit''"] by blast
  moreover from a have "qubit_ob \<notin> set (circ_dom c)"
    by (auto simp add: qubit_ob_def Ob_def)
  ultimately show "is_mixed c = PyBool False"
    by (simp add: is_mixed_value)
qed

theorem C8_is_mixed_witness:
  "is_mixed \<lparr>circ_dom = [qubit_ob, qubit_ob], circ_cod = [qubit_ob, qubit_ob],
        circ_boxes = [\<lparr>qname = ''CX'', qdom = [qubit_ob, qubit_ob], qcod = [qubit_ob, qubit_ob],
                       mixed = False\<rparr>],
        circ_offsets = [0]\<rparr> = PyBool False
   \<and> is_mixed \<lparr>circ_dom = [bit_ob], circ_cod = [bit_ob, bit_ob],
        circ_boxes = [\<lparr>qname = ''Bits(1)'', qdom = [], qcod = [bit_ob], mixed = False\<rparr>],
        circ_offsets = [1]\<rparr> = PyBool False
   \<and> truthy (is_mixed \<lparr>circ_dom = [qubit_ob, qubit_ob], circ_cod = [bit_ob, qubit_ob],
        circ_boxes = [\<lparr>qname = ''Measure()'', qdom = [qubit_ob], qcod = [bit_ob], mixed = True\<rparr>],
        circ_offsets = [0]\<rparr>)"
proof -
  let ?cx = "\<lparr>circ_dom = [qubit_ob, qubit_ob], circ_cod = [qubit_ob, qubit_ob],
        circ_boxes = [\<lparr>qname = ''CX'', qdom = [qubit_ob, qubit_ob], qcod = [qubit_ob, qubit_ob],
                       mixed = False\<rparr>],
        circ_offsets = [0]\<rparr>"
  let ?bits = "\<lparr>circ_dom = [bit_ob], circ_cod = [bit_ob, bit_ob],
        circ_boxes = [\<lparr>qname = ''Bits(1)'', qdom = [], qcod = [bit_ob], mixed = False\<rparr>],
        circ_offsets = [1]\<rparr>"
  let ?measure_cq = "\<lparr>circ_dom = [qubit_ob, qubit_ob], circ_cod = [bit_ob, qubit_ob],
        circ_boxes = [\<lparr>qname = ''Measure()'', qdom = [qubit_ob], qcod = [bit_ob], mixed = True\<rparr>],
        circ_offsets = [0]\<rparr>"
  have "is_mixed ?cx = PyBool False"
    using C8_is_mixed [of ?cx, THEN conjunct2, THEN conjunct2, THEN conjunct1]
    by (simp add: qubit_ob_def Ob_def)
  moreover have "is_mixed ?bits = PyBool False"
    using C8_is_mixed [of ?bits, THEN conjunct2, THEN conjunct2, THEN conjunct2]
    by (simp add: bit_ob_def Ob_def)
  moreover have "truthy (is_mixed ?measure_cq)"
    using C8_is_mixed [of ?measure_cq, THEN conjunct1] by simp
  ultimately show ?thesis by blast
qed

subsection \<open>Nested cups and caps\<close>

lemma ob_r_r_neq: "ob_r (ob_r x) \<noteq> x"
  by (cases x) (simp add: ob_r_def Ob_def)

lemma Cup_single:
  "Cup [x] [y] = (if ob_r x = y then Inr (CupBox [x] [y]) else Inl AxiomError)"
  using ob_r_r_neq [of y] by (auto simp add: Cup_def ty_r_def)

lemma Cap_single:
  "Cap [x] [y] = (if x = ob_r y then Inr (CapBox [x] [y]) else Inl AxiomError)"
  using ob_r_r_neq [of y] by (auto simp add: Cap_def ty_r_def)

lemma slice_single: "i < length t \<Longrightarrow> slice t i (Suc i) = [t ! i]"
  by (simp add: slice_def take_Suc_conv_app_nth hd_drop_conv_nth take_Suc)

lemma ty_r_nth: "i < length t \<Longrightarrow> ty_r t ! i = ob_r (t ! (length t - 1 - i))"
  by (simp add: ty_r_def rev_nth)

lemma ty_r_length [simp]: "length (ty_r t) = length t"
  by (simp add: ty_r_def)

text \<open>One layer of the loop: an identity, the cup or cap, an identity.\<close>

lemma layer_diagram:
  "tensor (tensor (Id_diagram a) (box_diagram g)) (Id_diagram b) =
     \<lparr>ddom = a @ gdom g @ b, dcod = a @ gcod g @ b, boxes = [g], offsets = [length a]\<rparr>"
  by (simp add: tensor_def Id_diagram_def box_diagram_def)

lemma split_at:
  assumes "k < n" "length left = n" "length right = n"
  shows "take (n - k) left @ drop k right =
         take (n - k - 1) left @ [left ! (n - k - 1), right ! k] @ drop (k + 1) right"
proof -
  have "take (Suc (n - k - 1)) left = take (n - k - 1) left @ [left ! (n - k - 1)]"
    using assms by (intro take_Suc_conv_app_nth) simp
  moreover have "Suc (n - k - 1) = n - k" using assms by simp
  moreover have "drop k right = right ! k # drop (Suc k) right"
    using assms by (simp add: Cons_nth_drop_Suc)
  ultimately show ?thesis by simp
qed

lemma cups_loop_Cup:
  assumes adj: "ty_r left = right" and n: "length left = n"
  shows "k \<le> n \<Longrightarrow> dcod result = take (n - k) left @ drop k right \<Longrightarrow>
    cups_loop Cup False left right [k..<n] result =
      Inr \<lparr>ddom = ddom result, dcod = [],
           boxes = boxes result @ map (\<lambda>i. CupBox [left ! (n - 1 - i)] [right ! i]) [k..<n],
           offsets = offsets result @ map (\<lambda>i. n - 1 - i) [k..<n]\<rparr>"
proof (induction "n - k" arbitrary: k result)
  case 0
  have "length right = n" using adj n by auto
  moreover from 0 have "k = n" by simp
  ultimately show ?case using 0(3) by (cases result) simp
next
  case (Suc m)
  then have k: "k < n" by simp
  have len: "length right = n" using adj n by auto
  let ?j = "n - k - 1"
  have j: "?j < length left" using k n by simp
  have r: "right ! k = ob_r (left ! ?j)"
    using adj n k ty_r_nth [of k left] by auto
  let ?cup = "CupBox [left ! ?j] [right ! k]"
  let ?res = "\<lparr>ddom = ddom result, dcod = take ?j left @ drop (k + 1) right,
               boxes = boxes result @ [?cup], offsets = offsets result @ [?j]\<rparr>"
  have cup: "Cup (slice left ?j (?j + 1)) (slice right k (k + 1)) = Inr ?cup"
    using j k len r by (simp add: slice_single Cup_single)
  have layer: "tensor (tensor (Id_diagram (take ?j left)) (box_diagram ?cup))
                 (Id_diagram (drop (k + 1) right)) =
      \<lparr>ddom = take ?j left @ [left ! ?j, right ! k] @ drop (k + 1) right,
       dcod = take ?j left @ drop (k + 1) right, boxes = [?cup], offsets = [?j]\<rparr>"
    using j by (simp add: layer_diagram)
  have comp: "then_d result \<lparr>ddom = take ?j left @ [left ! ?j, right ! k] @ drop (k + 1) right,
       dcod = take ?j left @ drop (k + 1) right, boxes = [?cup], offsets = [?j]\<rparr> = Inr ?res"
    using Suc.prems(2) split_at [OF k n len] by (simp add: then_d_def)
  have "[k..<n] = k # [Suc k..<n]"
    using k by (simp add: upt_conv_Cons)
  then have step: "cups_loop Cup False left right [k..<n] result =
      cups_loop Cup False left right [Suc k..<n] ?res"
    using n cup layer comp by (simp add: Let_def)
  have "cups_loop Cup False left right [Suc k..<n] ?res =
      Inr \<lparr>ddom = ddom ?res, dcod = [],
           boxes = boxes ?res @ map (\<lambda>i. CupBox [left ! (n - 1 - i)] [right ! i]) [Suc k..<n],
           offsets = offsets ?res @ map (\<lambda>i. n - 1 - i) [Suc k..<n]\<rparr>"
    using Suc.hyps(2) k by (intro Suc.hyps(1)) auto
  with step k show ?case
    by (simp add: upt_conv_Cons)
qed

lemma cups_loop_Cap:
  assumes adj: "ty_r right = left" and n: "length left = n"
  shows "k \<le> n \<Longrightarrow> ddom result = take (n - k) left @ drop k right \<Longrightarrow>
    cups_loop Cap True left right [k..<n] result =
      Inr \<lparr>ddom = [], dcod = dcod result,
           boxes = map (\<lambda>i. CapBox [left ! (n - 1 - i)] [right ! i]) (rev [k..<n]) @ boxes result,
           offsets = map (\<lambda>i. n - 1 - i) (rev [k..<n]) @ offsets result\<rparr>"
proof (induction "n - k" arbitrary: k result)
  case 0
  have "length right = n" using adj n by auto
  moreover from 0 have "k = n" by simp
  ultimately show ?case using 0(3) by (cases result) simp
next
  case (Suc m)
  then have k: "k < n" by simp
  have len: "length right = n" using adj n by auto
  let ?j = "n - k - 1"
  have j: "?j < length left" using k n by simp
  have "n - 1 - ?j = k" using k by simp
  then have r: "left ! ?j = ob_r (right ! k)"
    using adj n k len ty_r_nth [of ?j right] by auto
  let ?cap = "CapBox [left ! ?j] [right ! k]"
  let ?res = "\<lparr>ddom = take ?j left @ drop (k + 1) right, dcod = dcod result,
               boxes = ?cap # boxes result, offsets = ?j # offsets result\<rparr>"
  have cap: "Cap (slice left ?j (?j + 1)) (slice right k (k + 1)) = Inr ?cap"
    using j k len r by (simp add: slice_single Cap_single)
  have layer: "tensor (tensor (Id_diagram (take ?j left)) (box_diagram ?cap))
                 (Id_diagram (drop (k + 1) right)) =
      \<lparr>ddom = take ?j left @ drop (k + 1) right,
       dcod = take ?j left @ [left ! ?j, right ! k] @ drop (k + 1) right,
       boxes = [?cap], offsets = [?j]\<rparr>"
    using j by (simp add: layer_diagram)
  have comp: "then_d \<lparr>ddom = take ?j left @ drop (k + 1) right,
       dcod = take ?j left @ [left ! ?j, right ! k] @ drop (k + 1) right,
       boxes = [?cap], offsets = [?j]\<rparr> result = Inr ?res"
    using Suc.prems(2) split_at [OF k n len] by (simp add: then_d_def)
  have "[k..<n] = k # [Suc k..<n]"
    using k by (simp add: upt_conv_Cons)
  then have step: "cups_loop Cap True left right [k..<n] result =
      cups_loop Cap True left right [Suc k..<n] ?res"
    using n cap layer comp by (simp add: Let_def)
  have "cups_loop Cap True left right [Suc k..<n] ?res =
      Inr \<lparr>ddom = [], dcod = dcod ?res,
           boxes = map (\<lambda>i. CapBox [left ! (n - 1 - i)] [right ! i]) (rev [Suc k..<n]) @ boxes ?res,
           offsets = map (\<lambda>i. n - 1 - i) (rev [Suc k..<n]) @ offsets ?res\<rparr>"
    using Suc.hyps(2) k by (intro Suc.hyps(1)) auto
  with step k show ?case
    by (simp add: upt_conv_Cons)
qed

lemma cups_adjoint:
  assumes "ty_r left = right"
  shows "cups left right =
      Inr \<lparr>ddom = left @ right, dcod = [],
           boxes = map (\<lambda>i. CupBox [left ! (length left - 1 - i)] [right ! i]) [0..<length left],
           offsets = map (\<lambda>i. length left - 1 - i) [0..<length left]\<rparr>"
proof -
  have "length right = length left" using assms by auto
  then have "dcod (Id_diagram (left @ right)) = take (length left - 0) left @ drop 0 right"
    by (simp add: Id_diagram_def)
  from cups_loop_Cup [OF assms refl _ this] assms show ?thesis
    by (simp add: cups_def cups_with_def Id_diagram_def)
qed

lemma caps_adjoint:
  assumes "ty_r right = left"
  shows "caps left right =
      Inr \<lparr>ddom = [], dcod = left @ right,
           boxes = map (\<lambda>i. CapBox [left ! (length left - 1 - i)] [right ! i])
                     (rev [0..<length left]),
           offsets = map (\<lambda>i. length left - 1 - i) (rev [0..<length left])\<rparr>"
proof -
  have "length right = length left" using assms by auto
  then have "ddom (Id_diagram (left @ right)) = take (length left - 0) left @ drop 0 right"
    by (simp add: Id_diagram_def)
  from cups_loop_Cap [OF assms refl _ this] assms show ?thesis
    by (simp add: caps_def cups_with_def Id_diagram_def)
qed

lemma cups_wrong_direction:
  assumes "ty_r right = left" "left \<noteq> []"
  shows "cups left right = Inl AxiomError"
proof -
  let ?n = "length left"
  have len: "length right = ?n" using assms by auto
  have pos: "0 < ?n" using assms by simp
  have "left ! (?n - 1) = ob_r (right ! 0)"
    using assms(1) pos len ty_r_nth [of "?n - 1" right] by auto
  then have "ob_r (left ! (?n - 1)) \<noteq> right ! 0"
    using ob_r_r_neq [of "right ! 0"] by simp
  moreover have "slice left (?n - 0 - 1) (?n - 0 - 1 + 1) = [left ! (?n - 1)]"
    using pos slice_single [of "?n - 1" left] by simp
  moreover have "slice right 0 (0 + 1) = [right ! 0]"
    using pos len slice_single [of 0 right] by simp
  ultimately have "Cup (slice left (?n - 0 - 1) (?n - 0 - 1 + 1)) (slice right 0 (0 + 1)) = Inl AxiomError"
    by (simp only: Cup_single if_False)
  moreover have "[0..<?n] = 0 # [1..<?n]"
    using pos by (simp add: upt_conv_Cons)
  ultimately show ?thesis
    using assms(1) by (simp add: cups_def cups_with_def Let_def)
qed

lemma caps_wrong_direction:
  assumes "ty_r left = right" "left \<noteq> []"
  shows "caps left right = Inl AxiomError"
proof -
  let ?n = "length left"
  have len: "length right = ?n" using assms by auto
  have pos: "0 < ?n" using assms by simp
  have "right ! 0 = ob_r (left ! (?n - 1))"
    using assms(1) pos ty_r_nth [of 0 left] by auto
  then have "left ! (?n - 1) \<noteq> ob_r (right ! 0)"
    using ob_r_r_neq [of "left ! (?n - 1)"] by simp
  moreover have "slice left (?n - 0 - 1) (?n - 0 - 1 + 1) = [left ! (?n - 1)]"
    using pos slice_single [of "?n - 1" left] by simp
  moreover have "slice right 0 (0 + 1) = [right ! 0]"
    using pos len slice_single [of 0 right] by simp
  ultimately have "Cap (slice left (?n - 0 - 1) (?n - 0 - 1 + 1)) (slice right 0 (0 + 1)) = Inl AxiomError"
    by (simp only: Cap_single if_False)
  moreover have "[0..<?n] = 0 # [1..<?n]"
    using pos by (simp add: upt_conv_Cons)
  ultimately show ?thesis
    using assms(1) by (simp add: caps_def cups_with_def Let_def)
qed

text \<open>C6, as stated, fails: \<open>n\<close> and \<open>n.l\<close> are mutual adjoints (\<open>n.l.r == n\<close>), yet
  \<open>cups(n, n.l)\<close> raises \<open>AxiomError\<close>, because \<open>Cup(n, n.l)\<close> has the adjunction the wrong way
  round; so does \<open>caps(n, n.r)\<close>.\<close>

theorem C6_wrong_direction_counterexample:
  "ty_r [Ob ''n'' (- 1)] = [Ob ''n'' 0]
   \<and> cups [Ob ''n'' 0] [Ob ''n'' (- 1)] = Inl AxiomError
   \<and> ty_r [Ob ''n'' 0] = [Ob ''n'' 1]
   \<and> caps [Ob ''n'' 0] [Ob ''n'' 1] = Inl AxiomError"
proof -
  have l: "ty_r [Ob ''n'' (- 1)] = [Ob ''n'' 0]"
    by (simp add: ty_r_def ob_r_def Ob_def)
  have r: "ty_r [Ob ''n'' 0] = [Ob ''n'' 1]"
    by (simp add: ty_r_def ob_r_def Ob_def)
  from l have "cups [Ob ''n'' 0] [Ob ''n'' (- 1)] = Inl AxiomError"
    by (intro cups_wrong_direction) simp_all
  moreover from r have "caps [Ob ''n'' 0] [Ob ''n'' 1] = Inl AxiomError"
    by (intro caps_wrong_direction) simp_all
  ultimately show ?thesis using l r by simp
qed

text \<open>C6, amended: \<open>cups(left, right)\<close> and \<open>caps(left, right)\<close> raise \<open>AxiomError\<close> whenever
  neither \<open>left.r == right\<close> nor \<open>right.r == left\<close>. \<open>cups\<close> succeeds when \<open>left.r == right\<close>:
  it returns the diagram from \<open>left @ right\<close> to \<open>Ty()\<close> whose boxes are
  \<open>Cup(left[n-1-i], right[i])\<close> at offset \<open>n-1-i\<close>, for \<open>i = 0, ..., n-1\<close>. \<open>caps\<close> succeeds
  when \<open>right.r == left\<close>: it returns the diagram from \<open>Ty()\<close> to \<open>left @ right\<close> with the boxes
  \<open>Cap(left[n-1-i], right[i])\<close> at offset \<open>n-1-i\<close>, for \<open>i = n-1, ..., 0\<close>. On types that are
  not empty and adjoint the other way round (\<open>right.r == left\<close> for \<open>cups\<close>, \<open>left.r == right\<close>
  for \<open>caps\<close>) both raise \<open>AxiomError\<close>.\<close>

theorem C6_cups_caps:
  "(ty_r left \<noteq> right \<and> ty_r right \<noteq> left \<longrightarrow>
      cups left right = Inl AxiomError \<and> caps left right = Inl AxiomError)
   \<and> (ty_r left = right \<longrightarrow>
      cups left right =
        Inr \<lparr>ddom = left @ right, dcod = [],
             boxes = map (\<lambda>i. CupBox [left ! (length left - 1 - i)] [right ! i])
                       [0..<length left],
             offsets = map (\<lambda>i. length left - 1 - i) [0..<length left]\<rparr>)
   \<and> (ty_r right = left \<longrightarrow>
      caps left right =
        Inr \<lparr>ddom = [], dcod = left @ right,
             boxes = map (\<lambda>i. CapBox [left ! (length left - 1 - i)] [right ! i])
                       (rev [0..<length left]),
             offsets = map (\<lambda>i. length left - 1 - i) (rev [0..<length left])\<rparr>)
   \<and> (ty_r right = left \<and> left \<noteq> [] \<longrightarrow> cups left right = Inl AxiomError)
   \<and> (ty_r left = right \<and> left \<noteq> [] \<longrightarrow> caps left right = Inl AxiomError)"
proof (intro conjI impI)
  assume "ty_r left \<noteq> right \<and> ty_r right \<noteq> left"
  then show "cups left right = Inl AxiomError" "caps left right = Inl AxiomError"
    by (simp_all add: cups_def caps_def cups_with_def)
next
  assume "ty_r left = right"
  then show "cups left right =
        Inr \<lparr>ddom = left @ right, dcod = [],
             boxes = map (\<lambda>i. CupBox [left ! (length left - 1 - i)] [right ! i])
                       [0..<length left],
             offsets = map (\<lambda>i. length left - 1 - i) [0..<length left]\<rparr>"
    by (rule cups_adjoint)
next
  assume "ty_r right = left"
  then show "caps left right =
        Inr \<lparr>ddom = [], dcod = left @ right,
             boxes = map (\<lambda>i. CapBox [left ! (length left - 1 - i)] [right ! i])
                       (rev [0..<length left]),
             offsets = map (\<lambda>i. length left - 1 - i) (rev [0..<length left])\<rparr>"
    by (rule caps_adjoint)
next
  assume "ty_r right = left \<and> left \<noteq> []"
  then show "cups left right = Inl AxiomError"
    by (simp add: cups_wrong_direction)
next
  assume "ty_r left = right \<and> left \<noteq> []"
  then show "caps left right = Inl AxiomError"
    by (simp add: caps_wrong_direction)
qed

theorem C6_cups_caps_witness:
  "cups [Ob ''a'' 0] [Ob ''b'' 0] = Inl AxiomError
   \<and> caps [Ob ''a'' 0] [Ob ''b'' 0] = Inl AxiomError
   \<and> cups [Ob ''a'' 0, Ob ''b'' 0] [Ob ''b'' 1, Ob ''a'' 1] =
        Inr \<lparr>ddom = [Ob ''a'' 0, Ob ''b'' 0, Ob ''b'' 1, Ob ''a'' 1], dcod = [],
             boxes = [CupBox [Ob ''b'' 0] [Ob ''b'' 1], CupBox [Ob ''a'' 0] [Ob ''a'' 1]],
             offsets = [1, 0]\<rparr>
   \<and> caps [Ob ''a'' 0, Ob ''b'' 0] [Ob ''b'' (- 1), Ob ''a'' (- 1)] =
        Inr \<lparr>ddom = [], dcod = [Ob ''a'' 0, Ob ''b'' 0, Ob ''b'' (- 1), Ob ''a'' (- 1)],
             boxes = [CapBox [Ob ''a'' 0] [Ob ''a'' (- 1)], CapBox [Ob ''b'' 0] [Ob ''b'' (- 1)]],
             offsets = [0, 1]\<rparr>
   \<and> cups [Ob ''a'' 0] [Ob ''a'' (- 1)] = Inl AxiomError
   \<and> caps [Ob ''a'' 0] [Ob ''a'' 1] = Inl AxiomError"
proof -
  have two: "[0..<2] = [0, Suc 0]"
    by (simp add: upt_rec)
  have "cups [Ob ''a'' 0] [Ob ''b'' 0] = Inl AxiomError
      \<and> caps [Ob ''a'' 0] [Ob ''b'' 0] = Inl AxiomError"
    using C6_cups_caps [of "[Ob ''a'' 0]" "[Ob ''b'' 0]", THEN conjunct1]
    by (simp add: ty_r_def ob_r_def Ob_def)
  moreover have "cups [Ob ''a'' 0, Ob ''b'' 0] [Ob ''b'' 1, Ob ''a'' 1] =
        Inr \<lparr>ddom = [Ob ''a'' 0, Ob ''b'' 0, Ob ''b'' 1, Ob ''a'' 1], dcod = [],
             boxes = [CupBox [Ob ''b'' 0] [Ob ''b'' 1], CupBox [Ob ''a'' 0] [Ob ''a'' 1]],
             offsets = [1, 0]\<rparr>"
    using C6_cups_caps [of "[Ob ''a'' 0, Ob ''b'' 0]" "[Ob ''b'' 1, Ob ''a'' 1]",
        THEN conjunct2, THEN conjunct1]
    by (simp add: ty_r_def ob_r_def Ob_def two)
  moreover have "caps [Ob ''a'' 0, Ob ''b'' 0] [Ob ''b'' (- 1), Ob ''a'' (- 1)] =
        Inr \<lparr>ddom = [], dcod = [Ob ''a'' 0, Ob ''b'' 0, Ob ''b'' (- 1), Ob ''a'' (- 1)],
             boxes = [CapBox [Ob ''a'' 0] [Ob ''a'' (- 1)], CapBox [Ob ''b'' 0] [Ob ''b'' (- 1)]],
             offsets = [0, 1]\<rparr>"
    using C6_cups_caps [of "[Ob ''a'' 0, Ob ''b'' 0]" "[Ob ''b'' (- 1), Ob ''a'' (- 1)]",
        THEN conjunct2, THEN conjunct2, THEN conjunct1]
    by (simp add: ty_r_def ob_r_def Ob_def two)
  moreover have "cups [Ob ''a'' 0] [Ob ''a'' (- 1)] = Inl AxiomError"
    using C6_cups_caps [of "[Ob ''a'' 0]" "[Ob ''a'' (- 1)]",
        THEN conjunct2, THEN conjunct2, THEN conjunct2, THEN conjunct1]
    by (simp add: ty_r_def ob_r_def Ob_def)
  moreover have "caps [Ob ''a'' 0] [Ob ''a'' 1] = Inl AxiomError"
    using C6_cups_caps [of "[Ob ''a'' 0]" "[Ob ''a'' 1]",
        THEN conjunct2, THEN conjunct2, THEN conjunct2, THEN conjunct2]
    by (simp add: ty_r_def ob_r_def Ob_def)
  ultimately show ?thesis by blast
qed

subsection \<open>Interchange permutes the boxes\<close>

declare interchange.simps [simp del]
declare follow_wire_loop.simps [simp del]

lemma swap_adjacent_boxes:
  assumes "swap_adjacent d i = Inr d'"
  shows "Suc i < length (boxes d)"
    and "boxes d' = (boxes d)[i := boxes d ! Suc i, Suc i := boxes d ! i]"
    and "ddom d' = ddom d" and "dcod d' = dcod d"
    and "length (offsets d') = length (offsets d)"
  using assms by (auto simp add: swap_adjacent_def Let_def split: if_splits)

lemma interchange_boxes:
  "interchange d i j = Inr d' \<Longrightarrow>
     i < length (boxes d) \<and> j < length (boxes d)
     \<and> length (boxes d') = length (boxes d)
     \<and> mset (boxes d') = mset (boxes d)
     \<and> ddom d' = ddom d \<and> dcod d' = dcod d
     \<and> length (offsets d') = length (offsets d)
     \<and> (\<forall>c < length (boxes d). boxes d' ! c = boxes d ! moved_from i j c)"
proof (induction d i j arbitrary: d' rule: interchange.induct)
  case (1 d i j)
  from "1.prems" have range: "i < length (boxes d)" "j < length (boxes d)"
    by (auto simp add: interchange.simps [of d i j] split: if_splits)
  show ?case
  proof (cases "i = j")
    case True
    have "d' = d"
      using "1.prems" range unfolding True by (simp add: interchange.simps [of d j j])
    with range True show ?thesis
      by (auto simp add: moved_from_def)
  next
    case False
    show ?thesis
    proof (cases "j < i")
      case True
      with "1.prems" range False obtain d1 where
        d1: "swap_adjacent d (i - 1) = Inr d1"
        and rest: "if j = i - 1 then d' = d1 else interchange d1 (i - 1) j = Inr d'"
        by (auto simp add: interchange.simps [of d i j] split: sum.splits if_splits)
      have i: "Suc (i - 1) = i" using True by simp
      note sw = swap_adjacent_boxes [OF d1, unfolded i]
      have len1: "length (boxes d1) = length (boxes d)"
        using sw(2) by simp
      have mset1: "mset (boxes d1) = mset (boxes d)"
        using sw(2) range True by (simp add: mset_swap)
      show ?thesis
      proof (cases "j = i - 1")
        case True
        with rest have "d' = d1" by simp
        with sw len1 mset1 range \<open>j < i\<close> True show ?thesis
          by (auto simp add: moved_from_def nth_list_update)
      next
        case False
        with rest have r: "interchange d1 (i - 1) j = Inr d'" by simp
        have ih: "length (boxes d') = length (boxes d1)
            \<and> mset (boxes d') = mset (boxes d1)
            \<and> ddom d' = ddom d1 \<and> dcod d' = dcod d1
            \<and> length (offsets d') = length (offsets d1)
            \<and> (\<forall>c < length (boxes d1). boxes d' ! c = boxes d1 ! moved_from (i - 1) j c)"
          using "1.IH"(1) [OF _ _ True d1 False r] range \<open>i \<noteq> j\<close> by simp
        have "boxes d' ! c = boxes d ! moved_from i j c" if "c < length (boxes d)" for c
          using ih len1 that sw(2) range True False
          by (auto simp add: moved_from_def nth_list_update)
        with ih len1 mset1 sw range show ?thesis by simp
      qed
    next
      case nlt: False
      with \<open>i \<noteq> j\<close> have lt: "i < j" by simp
      with "1.prems" range obtain d1 where
        d1: "swap_adjacent d i = Inr d1"
        and rest: "if j = i + 1 then d' = d1 else interchange d1 (i + 1) j = Inr d'"
        by (auto simp add: interchange.simps [of d i j] split: sum.splits if_splits)
      note sw = swap_adjacent_boxes [OF d1]
      have len1: "length (boxes d1) = length (boxes d)"
        using sw(2) by simp
      have mset1: "mset (boxes d1) = mset (boxes d)"
        using sw(1,2) range by (simp add: mset_swap)
      show ?thesis
      proof (cases "j = i + 1")
        case True
        with rest have "d' = d1" by simp
        with sw len1 mset1 range lt True show ?thesis
          by (auto simp add: moved_from_def nth_list_update)
      next
        case False
        with rest have r: "interchange d1 (i + 1) j = Inr d'" by simp
        have ih: "length (boxes d') = length (boxes d1)
            \<and> mset (boxes d') = mset (boxes d1)
            \<and> ddom d' = ddom d1 \<and> dcod d' = dcod d1
            \<and> length (offsets d') = length (offsets d1)
            \<and> (\<forall>c < length (boxes d1). boxes d' ! c = boxes d1 ! moved_from (i + 1) j c)"
          using "1.IH"(2) [OF _ _ nlt d1 False r] range \<open>i \<noteq> j\<close> by simp
        have "boxes d' ! c = boxes d ! moved_from i j c" if "c < length (boxes d)" for c
          using ih len1 that sw(2) range lt False
          by (auto simp add: moved_from_def nth_list_update)
        with ih len1 mset1 sw range show ?thesis by simp
      qed
    qed
  qed
qed

lemma moved_from_simps:
  "j < i \<Longrightarrow> moved_from i j (Suc j) = j"
  "j < i \<Longrightarrow> i < c \<Longrightarrow> moved_from i j c = c"
  "i < j \<Longrightarrow> moved_from i j (j - 1) = j"
  "i < j \<Longrightarrow> c < i \<Longrightarrow> moved_from i j c = c"
  by (auto simp add: moved_from_def)

subsection \<open>The loops of unsnake keep track of the cap and the cup\<close>

lemma left_snake_cap_loop_inv:
  "left_snake_cap_loop d cap lo ro = Inr (ys, d', cap', ro') \<Longrightarrow>
   cup < length (boxes d) \<Longrightarrow>
   sorted_wrt (<) lo \<Longrightarrow> between cap cup lo \<Longrightarrow>
   sorted_wrt (<) ro \<Longrightarrow> between cap cup ro \<Longrightarrow> set lo \<inter> set ro = {} \<Longrightarrow>
   length ys = length lo \<and> cap' = cap + length lo \<and> length ro' = length ro
   \<and> sorted_wrt (<) ro' \<and> between cap' cup ro'
   \<and> boxes d' ! cap' = boxes d ! cap \<and> boxes d' ! cup = boxes d ! cup
   \<and> length (boxes d') = length (boxes d) \<and> mset (boxes d') = mset (boxes d)
   \<and> ddom d' = ddom d \<and> dcod d' = dcod d
   \<and> (\<forall>y \<in> set ys. mset (boxes y) = mset (boxes d))"
proof (induction lo arbitrary: d cap ro ys)
  case Nil
  then show ?case by simp
next
  case (Cons box rest)
  let ?ro = "map (\<lambda>right_box. if right_box < box then right_box + 1 else right_box) ro"
  from Cons.prems(1) obtain d1 ys1 where
    d1: "interchange d box cap = Inr d1"
    and loop: "left_snake_cap_loop d1 (cap + 1) rest ?ro = Inr (ys1, d', cap', ro')"
    and ys: "ys = d1 # ys1"
    by (auto split: sum.splits)
  note ib = interchange_boxes [OF d1]
  have box: "cap < box" "box < cup"
    using Cons.prems(4) by (simp_all add: between_def)
  have notin: "box \<notin> set ro"
    using Cons.prems(7) by auto
  have cap1: "boxes d1 ! (cap + 1) = boxes d ! cap"
    using ib box Cons.prems(2) moved_from_simps(1) [of cap box] by simp
  have cup1: "boxes d1 ! cup = boxes d ! cup"
    using ib box Cons.prems(2) moved_from_simps(2) [of cap box cup] by simp
  have s_rest: "sorted_wrt (<) rest" and gt: "\<forall>x \<in> set rest. box < x"
    using Cons.prems(3) by simp_all
  have b_rest: "between (cap + 1) cup rest"
    using Cons.prems(4) gt box by (auto simp add: between_def)
  have ne: "x \<noteq> box" if "x \<in> set ro" for x
    using that notin by auto
  have s_ro: "sorted_wrt (<) ?ro"
    unfolding sorted_wrt_map
  proof (rule sorted_wrt_mono_rel [OF _ Cons.prems(5)])
    fix x y assume "x \<in> set ro" "y \<in> set ro" "x < y"
    then show "(if x < box then x + 1 else x) < (if y < box then y + 1 else y)"
      using ne [of y] by auto
  qed
  have b_ro: "between (cap + 1) cup ?ro"
    unfolding between_def
  proof
    fix x' assume "x' \<in> set ?ro"
    then obtain x where x: "x \<in> set ro" "x' = (if x < box then x + 1 else x)"
      by auto
    then have "cap < x" "x < cup" using Cons.prems(6) by (simp_all add: between_def)
    with x box ne [of x] show "cap + 1 < x' \<and> x' < cup" by auto
  qed
  have disj: "set rest \<inter> set ?ro = {}"
  proof -
    have "x' \<notin> set rest" if "x' \<in> set ?ro" for x'
    proof -
      from that obtain x where x: "x \<in> set ro" "x' = (if x < box then x + 1 else x)"
        by auto
      show ?thesis
      proof (cases "x < box")
        case True
        with x have "x' \<le> box" by simp
        with gt show ?thesis by auto
      next
        case False
        with x Cons.prems(7) show ?thesis by auto
      qed
    qed
    then show ?thesis by auto
  qed
  have cup_len: "cup < length (boxes d1)"
    using ib Cons.prems(2) by simp
  have ih: "length ys1 = length rest \<and> cap' = cap + 1 + length rest \<and> length ro' = length ?ro
      \<and> sorted_wrt (<) ro' \<and> between cap' cup ro'
      \<and> boxes d' ! cap' = boxes d1 ! (cap + 1) \<and> boxes d' ! cup = boxes d1 ! cup
      \<and> length (boxes d') = length (boxes d1) \<and> mset (boxes d') = mset (boxes d1)
      \<and> ddom d' = ddom d1 \<and> dcod d' = dcod d1
      \<and> (\<forall>y \<in> set ys1. mset (boxes y) = mset (boxes d1))"
    by (rule Cons.IH [OF loop cup_len s_rest b_rest s_ro b_ro disj])
  show ?case
    using ih ys ib cap1 cup1 by auto
qed

lemma left_snake_cup_loop_inv:
  "left_snake_cup_loop d cup rs = Inr (ys, d', cup') \<Longrightarrow>
   cup < length (boxes d) \<Longrightarrow> cap < cup \<Longrightarrow>
   sorted_wrt (>) rs \<Longrightarrow> between cap cup rs \<Longrightarrow>
   length ys = length rs \<and> cup' = cup - length rs \<and> cap < cup' \<and> length rs \<le> cup
   \<and> boxes d' ! cap = boxes d ! cap \<and> boxes d' ! cup' = boxes d ! cup
   \<and> length (boxes d') = length (boxes d) \<and> mset (boxes d') = mset (boxes d)
   \<and> ddom d' = ddom d \<and> dcod d' = dcod d
   \<and> (\<forall>y \<in> set ys. mset (boxes y) = mset (boxes d))"
proof (induction rs arbitrary: d cup ys)
  case Nil
  then show ?case by simp
next
  case (Cons box rest)
  from Cons.prems(1) obtain d1 ys1 where
    d1: "interchange d box cup = Inr d1"
    and loop: "left_snake_cup_loop d1 (cup - 1) rest = Inr (ys1, d', cup')"
    and ys: "ys = d1 # ys1"
    by (auto split: sum.splits)
  note ib = interchange_boxes [OF d1]
  have box: "cap < box" "box < cup"
    using Cons.prems(5) by (simp_all add: between_def)
  have cup1: "boxes d1 ! (cup - 1) = boxes d ! cup"
    using ib box Cons.prems(2) moved_from_simps(3) [of box cup] by simp
  have cap1: "boxes d1 ! cap = boxes d ! cap"
    using ib box Cons.prems(2) moved_from_simps(4) [of box cup cap] by simp
  have s_rest: "sorted_wrt (>) rest" and lt: "\<forall>x \<in> set rest. x < box"
    using Cons.prems(4) by simp_all
  have b_rest: "between cap (cup - 1) rest"
    using Cons.prems(5) lt box by (auto simp add: between_def)
  have cup_len: "cup - 1 < length (boxes d1)"
    using ib Cons.prems(2) by simp
  have cap_cup: "cap < cup - 1"
    using box by simp
  have ih: "length ys1 = length rest \<and> cup' = cup - 1 - length rest \<and> cap < cup'
      \<and> length rest \<le> cup - 1
      \<and> boxes d' ! cap = boxes d1 ! cap \<and> boxes d' ! cup' = boxes d1 ! (cup - 1)
      \<and> length (boxes d') = length (boxes d1) \<and> mset (boxes d') = mset (boxes d1)
      \<and> ddom d' = ddom d1 \<and> dcod d' = dcod d1
      \<and> (\<forall>y \<in> set ys1. mset (boxes y) = mset (boxes d1))"
    by (rule Cons.IH [OF loop cup_len cap_cup s_rest b_rest])
  show ?case
    using ih ys ib cap1 cup1 box by auto
qed

lemma right_snake_cup_loop_inv:
  "right_snake_cup_loop d cup ls ro = Inr (ys, d', cup', ro') \<Longrightarrow>
   cup < length (boxes d) \<Longrightarrow> cap < cup \<Longrightarrow>
   sorted_wrt (>) ls \<Longrightarrow> between cap cup ls \<Longrightarrow>
   sorted_wrt (<) ro \<Longrightarrow> between cap cup ro \<Longrightarrow> set ls \<inter> set ro = {} \<Longrightarrow>
   length ys = length ls \<and> cup' = cup - length ls \<and> cap < cup' \<and> length ls \<le> cup
   \<and> length ro' = length ro \<and> sorted_wrt (<) ro' \<and> between cap cup' ro'
   \<and> boxes d' ! cap = boxes d ! cap \<and> boxes d' ! cup' = boxes d ! cup
   \<and> length (boxes d') = length (boxes d) \<and> mset (boxes d') = mset (boxes d)
   \<and> ddom d' = ddom d \<and> dcod d' = dcod d
   \<and> (\<forall>y \<in> set ys. mset (boxes y) = mset (boxes d))"
proof (induction ls arbitrary: d cup ro ys)
  case Nil
  then show ?case by simp
next
  case (Cons box rest)
  let ?ro = "map (\<lambda>right_box. if right_box > box then right_box - 1 else right_box) ro"
  from Cons.prems(1) obtain d1 ys1 where
    d1: "interchange d box cup = Inr d1"
    and loop: "right_snake_cup_loop d1 (cup - 1) rest ?ro = Inr (ys1, d', cup', ro')"
    and ys: "ys = d1 # ys1"
    by (auto split: sum.splits)
  note ib = interchange_boxes [OF d1]
  have box: "cap < box" "box < cup"
    using Cons.prems(5) by (simp_all add: between_def)
  have notin: "box \<notin> set ro"
    using Cons.prems(8) by auto
  have ne: "x \<noteq> box" if "x \<in> set ro" for x
    using that notin by auto
  have cup1: "boxes d1 ! (cup - 1) = boxes d ! cup"
    using ib box Cons.prems(2) moved_from_simps(3) [of box cup] by simp
  have cap1: "boxes d1 ! cap = boxes d ! cap"
    using ib box Cons.prems(2) moved_from_simps(4) [of box cup cap] by simp
  have s_rest: "sorted_wrt (>) rest" and lt: "\<forall>x \<in> set rest. x < box"
    using Cons.prems(4) by simp_all
  have b_rest: "between cap (cup - 1) rest"
    using Cons.prems(5) lt box by (auto simp add: between_def)
  have s_ro: "sorted_wrt (<) ?ro"
    unfolding sorted_wrt_map
  proof (rule sorted_wrt_mono_rel [OF _ Cons.prems(6)])
    fix x y assume "x \<in> set ro" "y \<in> set ro" "x < y"
    then show "(if x > box then x - 1 else x) < (if y > box then y - 1 else y)"
      using ne [of x] by auto
  qed
  have b_ro: "between cap (cup - 1) ?ro"
    unfolding between_def
  proof
    fix x' assume "x' \<in> set ?ro"
    then obtain x where x: "x \<in> set ro" "x' = (if x > box then x - 1 else x)"
      by auto
    then have "cap < x" "x < cup" using Cons.prems(7) by (simp_all add: between_def)
    with x box ne [of x] show "cap < x' \<and> x' < cup - 1" by auto
  qed
  have disj: "set rest \<inter> set ?ro = {}"
  proof -
    have "x' \<notin> set rest" if "x' \<in> set ?ro" for x'
    proof -
      from that obtain x where x: "x \<in> set ro" "x' = (if x > box then x - 1 else x)"
        by auto
      show ?thesis
      proof (cases "x > box")
        case True
        with x have "x' \<ge> box" by simp
        with lt show ?thesis by auto
      next
        case False
        with x Cons.prems(8) show ?thesis by auto
      qed
    qed
    then show ?thesis by auto
  qed
  have cup_len: "cup - 1 < length (boxes d1)"
    using ib Cons.prems(2) by simp
  have cap_cup: "cap < cup - 1"
    using box by simp
  have ih: "length ys1 = length rest \<and> cup' = cup - 1 - length rest \<and> cap < cup'
      \<and> length rest \<le> cup - 1
      \<and> length ro' = length ?ro \<and> sorted_wrt (<) ro' \<and> between cap cup' ro'
      \<and> boxes d' ! cap = boxes d1 ! cap \<and> boxes d' ! cup' = boxes d1 ! (cup - 1)
      \<and> length (boxes d') = length (boxes d1) \<and> mset (boxes d') = mset (boxes d1)
      \<and> ddom d' = ddom d1 \<and> dcod d' = dcod d1
      \<and> (\<forall>y \<in> set ys1. mset (boxes y) = mset (boxes d1))"
    by (rule Cons.IH [OF loop cup_len cap_cup s_rest b_rest s_ro b_ro disj])
  show ?case
    using ih ys ib cap1 cup1 box by auto
qed

lemma right_snake_cap_loop_inv:
  "right_snake_cap_loop d cap rs = Inr (ys, d', cap') \<Longrightarrow>
   cup < length (boxes d) \<Longrightarrow>
   sorted_wrt (<) rs \<Longrightarrow> between cap cup rs \<Longrightarrow>
   length ys = length rs \<and> cap' = cap + length rs
   \<and> boxes d' ! cap' = boxes d ! cap \<and> boxes d' ! cup = boxes d ! cup
   \<and> length (boxes d') = length (boxes d) \<and> mset (boxes d') = mset (boxes d)
   \<and> ddom d' = ddom d \<and> dcod d' = dcod d
   \<and> (\<forall>y \<in> set ys. mset (boxes y) = mset (boxes d))"
proof (induction rs arbitrary: d cap ys)
  case Nil
  then show ?case by simp
next
  case (Cons box rest)
  from Cons.prems(1) obtain d1 ys1 where
    d1: "interchange d box cap = Inr d1"
    and loop: "right_snake_cap_loop d1 (cap + 1) rest = Inr (ys1, d', cap')"
    and ys: "ys = d1 # ys1"
    by (auto split: sum.splits)
  note ib = interchange_boxes [OF d1]
  have box: "cap < box" "box < cup"
    using Cons.prems(4) by (simp_all add: between_def)
  have cap1: "boxes d1 ! (cap + 1) = boxes d ! cap"
    using ib box Cons.prems(2) moved_from_simps(1) [of cap box] by simp
  have cup1: "boxes d1 ! cup = boxes d ! cup"
    using ib box Cons.prems(2) moved_from_simps(2) [of cap box cup] by simp
  have s_rest: "sorted_wrt (<) rest" and gt: "\<forall>x \<in> set rest. box < x"
    using Cons.prems(3) by simp_all
  have b_rest: "between (cap + 1) cup rest"
    using Cons.prems(4) gt box by (auto simp add: between_def)
  have cup_len: "cup < length (boxes d1)"
    using ib Cons.prems(2) by simp
  have ih: "length ys1 = length rest \<and> cap' = cap + 1 + length rest
      \<and> boxes d' ! cap' = boxes d1 ! (cap + 1) \<and> boxes d' ! cup = boxes d1 ! cup
      \<and> length (boxes d') = length (boxes d1) \<and> mset (boxes d') = mset (boxes d1)
      \<and> ddom d' = ddom d1 \<and> dcod d' = dcod d1
      \<and> (\<forall>y \<in> set ys1. mset (boxes y) = mset (boxes d1))"
    by (rule Cons.IH [OF loop cup_len s_rest b_rest])
  show ?case
    using ih ys ib cap1 cup1 by auto
qed

subsection \<open>What follow_wire and find_snake return\<close>

lemma follow_wire_loop_obstructions:
  "follow_wire_loop d i j lo ro = (cup, wire, lo', ro') \<Longrightarrow>
   cap \<le> i \<Longrightarrow> i < length (boxes d) \<Longrightarrow>
   sorted_wrt (<) lo \<Longrightarrow> sorted_wrt (<) ro \<Longrightarrow>
   (\<forall>x \<in> set lo \<union> set ro. cap < x \<and> x \<le> i) \<Longrightarrow> set lo \<inter> set ro = {} \<Longrightarrow>
   length lo + length ro = i - cap \<Longrightarrow>
   i < cup \<and> cup \<le> length (boxes d)
   \<and> sorted_wrt (<) lo' \<and> sorted_wrt (<) ro' \<and> between cap cup lo' \<and> between cap cup ro'
   \<and> set lo' \<inter> set ro' = {} \<and> length lo' + length ro' = cup - cap - 1"
proof (induction d i j lo ro rule: follow_wire_loop.induct)
  case (1 d i j lo ro)
  show ?case
  proof (cases "Suc i < length (boxes d)")
    case False
    with "1.prems"(1) have eq: "cup = length (boxes d)" "lo' = lo" "ro' = ro"
      by (simp_all add: follow_wire_loop.simps [of d i j lo ro])
    have "cap < x \<and> x < cup" if "x \<in> set lo \<union> set ro" for x
    proof -
      from "1.prems"(6) that have "cap < x \<and> x \<le> i" by blast
      with "1.prems"(3) eq(1) show ?thesis by simp
    qed
    with "1.prems" False eq show ?thesis
      by (auto simp add: between_def)
  next
    case True
    let ?box = "boxes d ! Suc i" and ?off = "offsets d ! Suc i"
    have le: "cap < x \<and> x \<le> i" if "x \<in> set lo \<union> set ro" for x
      using "1.prems"(6) that by blast
    have fresh: "Suc i \<notin> set lo" "Suc i \<notin> set ro"
      using le [of "Suc i"] by auto
    have s_lo: "sorted_wrt (<) (lo @ [Suc i])" and s_ro: "sorted_wrt (<) (ro @ [Suc i])"
      using "1.prems"(4,5) le by (auto simp add: sorted_wrt_append less_Suc_eq_le)
    have bound_lo: "\<forall>x \<in> set (lo @ [Suc i]) \<union> set ro. cap < x \<and> x \<le> Suc i"
      and bound_ro: "\<forall>x \<in> set lo \<union> set (ro @ [Suc i]). cap < x \<and> x \<le> Suc i"
      using le "1.prems"(2) by (auto simp add: le_Suc_eq)
    have disj_lo: "set (lo @ [Suc i]) \<inter> set ro = {}"
      and disj_ro: "set lo \<inter> set (ro @ [Suc i]) = {}"
      using fresh "1.prems"(7) by auto
    have len_lo: "length (lo @ [Suc i]) + length ro = Suc i - cap"
      and len_ro: "length lo + length (ro @ [Suc i]) = Suc i - cap"
      using "1.prems"(2,8) by auto
    have cap_le: "cap \<le> Suc i" using "1.prems"(2) by simp
    show ?thesis
    proof (cases "?off \<le> j \<and> j < ?off + length (gdom ?box)")
      case found: True
      with True "1.prems"(1) have "cup = Suc i" "lo' = lo" "ro' = ro"
        by (simp_all add: follow_wire_loop.simps [of d i j lo ro] Let_def)
      moreover have "between cap (Suc i) lo" "between cap (Suc i) ro"
        using le by (auto simp add: between_def less_Suc_eq_le)
      ultimately show ?thesis
        using "1.prems"(2,4,5,7,8) True by auto
    next
      case nf: False
      show ?thesis
      proof (cases "?off \<le> j")
        case left: True
        with True nf "1.prems"(1) have
          "follow_wire_loop d (Suc i) (j + length (gcod ?box) - length (gdom ?box))
             (lo @ [Suc i]) ro = (cup, wire, lo', ro')"
          by (simp add: follow_wire_loop.simps [of d i j lo ro] Let_def)
        from "1.IH"(1) [OF True refl refl refl nf left this cap_le True s_lo "1.prems"(5)
            bound_lo disj_lo len_lo]
        show ?thesis by auto
      next
        case right: False
        with True nf "1.prems"(1) have
          "follow_wire_loop d (Suc i) j lo (ro @ [Suc i]) = (cup, wire, lo', ro')"
          by (simp add: follow_wire_loop.simps [of d i j lo ro] Let_def)
        from "1.IH"(2) [OF True refl refl refl nf right this cap_le True "1.prems"(4) s_ro
            bound_ro disj_ro len_ro]
        show ?thesis by auto
      qed
    qed
  qed
qed

lemma try_wire_Some:
  assumes "try_wire d cap left_snake = Some (cup, cap', (lo, ro), ls)" "cap < length (boxes d)"
  shows "cap' = cap \<and> ls = left_snake \<and> cap < cup \<and> cup < length (boxes d)
    \<and> is_Cup (boxes d ! cup)
    \<and> sorted_wrt (<) lo \<and> sorted_wrt (<) ro \<and> between cap cup lo \<and> between cap cup ro
    \<and> set lo \<inter> set ro = {} \<and> length lo + length ro = cup - cap - 1"
proof -
  let ?wire0 = "if left_snake then offsets d ! cap else offsets d ! cap + 1"
  obtain cup0 wire lo0 ro0 where fw: "follow_wire_loop d cap ?wire0 [] [] = (cup0, wire, lo0, ro0)"
    by (metis prod_cases4)
  with assms(1) have eq: "cup0 = cup" "lo0 = lo" "ro0 = ro" "cap' = cap" "ls = left_snake"
    and ok: "cup \<noteq> length (boxes d)" "is_Cup (boxes d ! cup)"
    by (auto simp add: try_wire_def follow_wire_def Let_def split: if_splits)
  from follow_wire_loop_obstructions [OF fw [unfolded eq], of cap] assms(2) ok eq
  show ?thesis by auto
qed

lemma find_snake_from_Some:
  "find_snake_from d caps0 = Some (cup, cap, (lo, ro), ls) \<Longrightarrow>
   \<forall>c \<in> set caps0. c < length (boxes d) \<Longrightarrow>
   cap < cup \<and> cup < length (boxes d) \<and> is_Cap (boxes d ! cap) \<and> is_Cup (boxes d ! cup)
    \<and> sorted_wrt (<) lo \<and> sorted_wrt (<) ro \<and> between cap cup lo \<and> between cap cup ro
    \<and> set lo \<inter> set ro = {} \<and> length lo + length ro = cup - cap - 1"
proof (induction caps0)
  case Nil
  then show ?case by simp
next
  case (Cons c rest)
  show ?case
  proof (cases "is_Cap (boxes d ! c)")
    case False
    with Cons show ?thesis by simp
  next
    case True
    have c: "c < length (boxes d)" using Cons.prems(2) by simp
    show ?thesis
    proof (cases "try_wire d c True")
      case (Some snake)
      with True Cons.prems(1) have "try_wire d c True = Some (cup, cap, (lo, ro), ls)"
        by simp
      from try_wire_Some [OF this c] True show ?thesis by auto
    next
      case None
      show ?thesis
      proof (cases "try_wire d c False")
        case (Some snake)
        with True None Cons.prems(1) have "try_wire d c False = Some (cup, cap, (lo, ro), ls)"
          by simp
        from try_wire_Some [OF this c] True show ?thesis by auto
      next
        case n2: None
        with True None Cons show ?thesis by simp
      qed
    qed
  qed
qed

lemma find_snake_Some:
  assumes "find_snake d = Some (cup, cap, (lo, ro), ls)"
  shows "cap < cup \<and> cup < length (boxes d) \<and> is_Cap (boxes d ! cap) \<and> is_Cup (boxes d ! cup)
    \<and> sorted_wrt (<) lo \<and> sorted_wrt (<) ro \<and> between cap cup lo \<and> between cap cup ro
    \<and> set lo \<inter> set ro = {} \<and> length lo + length ro = cup - cap - 1"
  using assms find_snake_from_Some [of d "[0..<length (boxes d)]" cup cap lo ro ls]
  by (simp add: find_snake_def)

subsection \<open>One snake elimination\<close>

lemma drop_two_adjacent:
  assumes "Suc k < length xs"
  shows "mset xs = mset (take k xs @ drop (k + 2) xs) + {#xs ! k, xs ! Suc k#}"
    and "length (take k xs @ drop (k + 2) xs) + 2 = length xs"
proof -
  have "drop k xs = xs ! k # xs ! Suc k # drop (k + 2) xs"
    using assms by (simp add: Cons_nth_drop_Suc Suc_lessD)
  then have "xs = take k xs @ xs ! k # xs ! Suc k # drop (k + 2) xs"
    by (metis append_take_drop_id)
  then have "mset xs = mset (take k xs @ xs ! k # xs ! Suc k # drop (k + 2) xs)"
    by simp
  then show "mset xs = mset (take k xs @ drop (k + 2) xs) + {#xs ! k, xs ! Suc k#}"
    by simp
  show "length (take k xs @ drop (k + 2) xs) + 2 = length xs"
    using assms by simp
qed

lemma unsnake_result:
  assumes snake: "find_snake d = Some (cup, cap, (lo, ro), left_snake)"
    and run: "unsnake d cup cap (lo, ro) left_snake = Inr ds"
  shows "\<exists>ys (d'::diagram) cap'. ds = ys @ [\<lparr>ddom = ddom d, dcod = dcod d,
            boxes = take cap' (boxes d') @ drop (cap' + 2) (boxes d'),
            offsets = take cap' (offsets d') @ drop (cap' + 2) (offsets d')\<rparr>]
        \<and> length ys = length lo + length ro
        \<and> (\<forall>y \<in> set ys. mset (boxes y) = mset (boxes d))
        \<and> Suc cap' < length (boxes d') \<and> mset (boxes d') = mset (boxes d)
        \<and> boxes d' ! cap' = boxes d ! cap \<and> boxes d' ! Suc cap' = boxes d ! cup"
proof -
  note fs = find_snake_Some [OF snake]
  from fs have cup: "cup < length (boxes d)" and cc: "cap < cup"
    and total: "length lo + length ro = cup - cap - 1"
    by simp_all
  show ?thesis
  proof (cases left_snake)
    case True
    from run True obtain ys1 d1 cap1 ro1 ys2 d2 cup2 where
      a: "left_snake_cap_loop d cap lo ro = Inr (ys1, d1, cap1, ro1)"
      and b: "left_snake_cup_loop d1 cup (rev ro1) = Inr (ys2, d2, cup2)"
      and ok: "scan_to d2 cap1 = scan_to d2 (cup2 + 1)"
      and ds: "ds = (ys1 @ ys2) @ [\<lparr>ddom = ddom d2, dcod = dcod d2,
            boxes = take cap1 (boxes d2) @ drop (cup2 + 1) (boxes d2),
            offsets = take cap1 (offsets d2) @ drop (cup2 + 1) (offsets d2)\<rparr>]"
      by (auto simp add: unsnake_def split: sum.splits if_splits)
    have ia: "length ys1 = length lo \<and> cap1 = cap + length lo \<and> length ro1 = length ro
        \<and> sorted_wrt (<) ro1 \<and> between cap1 cup ro1
        \<and> boxes d1 ! cap1 = boxes d ! cap \<and> boxes d1 ! cup = boxes d ! cup
        \<and> length (boxes d1) = length (boxes d) \<and> mset (boxes d1) = mset (boxes d)
        \<and> ddom d1 = ddom d \<and> dcod d1 = dcod d
        \<and> (\<forall>y \<in> set ys1. mset (boxes y) = mset (boxes d))"
    proof (rule left_snake_cap_loop_inv [OF a cup])
      from fs show "sorted_wrt (<) lo" "between cap cup lo" "sorted_wrt (<) ro"
        "between cap cup ro" "set lo \<inter> set ro = {}" by blast+
    qed
    have cap1: "cap1 < cup" using ia total cc by simp
    have cup1: "cup < length (boxes d1)" using ia cup by simp
    have ib: "length ys2 = length (rev ro1) \<and> cup2 = cup - length (rev ro1) \<and> cap1 < cup2
        \<and> length (rev ro1) \<le> cup
        \<and> boxes d2 ! cap1 = boxes d1 ! cap1 \<and> boxes d2 ! cup2 = boxes d1 ! cup
        \<and> length (boxes d2) = length (boxes d1) \<and> mset (boxes d2) = mset (boxes d1)
        \<and> ddom d2 = ddom d1 \<and> dcod d2 = dcod d1
        \<and> (\<forall>y \<in> set ys2. mset (boxes y) = mset (boxes d1))"
    proof (rule left_snake_cup_loop_inv [OF b cup1 cap1])
      show "sorted_wrt (>) (rev ro1)"
        using ia by (simp add: sorted_wrt_rev)
      from ia have "between cap1 cup ro1" by blast
      then show "between cap1 cup (rev ro1)"
        by (simp add: between_def)
    qed
    have adj: "cup2 = Suc cap1" using ia ib total cc by simp
    have dd: "ddom d2 = ddom d" "dcod d2 = dcod d"
      using ia ib by simp_all
    have f1: "ds = (ys1 @ ys2) @ [\<lparr>ddom = ddom d, dcod = dcod d,
            boxes = take cap1 (boxes d2) @ drop (cap1 + 2) (boxes d2),
            offsets = take cap1 (offsets d2) @ drop (cap1 + 2) (offsets d2)\<rparr>]"
      using ds adj dd by simp
    have f2: "length (ys1 @ ys2) = length lo + length ro"
      using ia ib by simp
    have f3: "\<forall>y \<in> set (ys1 @ ys2). mset (boxes y) = mset (boxes d)"
      using ia ib by auto
    have f4: "Suc cap1 < length (boxes d2)"
      using ia ib adj cup by auto
    have f5: "mset (boxes d2) = mset (boxes d)"
      using ia ib by simp
    have f6: "boxes d2 ! cap1 = boxes d ! cap" and f7: "boxes d2 ! Suc cap1 = boxes d ! cup"
      using ia ib adj by auto
    from f1 f2 f3 f4 f5 f6 f7 show ?thesis
      by (intro exI [where x = "ys1 @ ys2"] exI [where x = d2] exI [where x = cap1] conjI)
  next
    case False
    from run False obtain ys1 d1 cup1 ro1 ys2 d2 cap2 where
      a: "right_snake_cup_loop d cup (rev lo) ro = Inr (ys1, d1, cup1, ro1)"
      and b: "right_snake_cap_loop d1 cap ro1 = Inr (ys2, d2, cap2)"
      and ok: "scan_to d2 cap2 = scan_to d2 (cup1 + 1)"
      and ds: "ds = (ys1 @ ys2) @ [\<lparr>ddom = ddom d2, dcod = dcod d2,
            boxes = take cap2 (boxes d2) @ drop (cup1 + 1) (boxes d2),
            offsets = take cap2 (offsets d2) @ drop (cup1 + 1) (offsets d2)\<rparr>]"
      by (auto simp add: unsnake_def split: sum.splits if_splits)
    have ia: "length ys1 = length (rev lo) \<and> cup1 = cup - length (rev lo) \<and> cap < cup1
        \<and> length (rev lo) \<le> cup
        \<and> length ro1 = length ro \<and> sorted_wrt (<) ro1 \<and> between cap cup1 ro1
        \<and> boxes d1 ! cap = boxes d ! cap \<and> boxes d1 ! cup1 = boxes d ! cup
        \<and> length (boxes d1) = length (boxes d) \<and> mset (boxes d1) = mset (boxes d)
        \<and> ddom d1 = ddom d \<and> dcod d1 = dcod d
        \<and> (\<forall>y \<in> set ys1. mset (boxes y) = mset (boxes d))"
    proof (rule right_snake_cup_loop_inv [OF a cup cc])
      show "sorted_wrt (>) (rev lo)"
        using fs by (simp add: sorted_wrt_rev)
      from fs have "between cap cup lo" by blast
      then show "between cap cup (rev lo)"
        by (simp add: between_def)
      show "sorted_wrt (<) ro" "between cap cup ro" "set (rev lo) \<inter> set ro = {}"
        using fs by simp_all
    qed
    have cup1: "cup1 < length (boxes d1)" using ia cup by simp
    have ib: "length ys2 = length ro1 \<and> cap2 = cap + length ro1
        \<and> boxes d2 ! cap2 = boxes d1 ! cap \<and> boxes d2 ! cup1 = boxes d1 ! cup1
        \<and> length (boxes d2) = length (boxes d1) \<and> mset (boxes d2) = mset (boxes d1)
        \<and> ddom d2 = ddom d1 \<and> dcod d2 = dcod d1
        \<and> (\<forall>y \<in> set ys2. mset (boxes y) = mset (boxes d1))"
    proof (rule right_snake_cap_loop_inv [OF b cup1])
      from ia show "sorted_wrt (<) ro1" by blast
      from ia show "between cap cup1 ro1" by blast
    qed
    have adj: "cup1 = Suc cap2" using ia ib total cc by simp
    have dd: "ddom d2 = ddom d" "dcod d2 = dcod d"
      using ia ib by simp_all
    have f1: "ds = (ys1 @ ys2) @ [\<lparr>ddom = ddom d, dcod = dcod d,
            boxes = take cap2 (boxes d2) @ drop (cap2 + 2) (boxes d2),
            offsets = take cap2 (offsets d2) @ drop (cap2 + 2) (offsets d2)\<rparr>]"
      using ds adj dd by simp
    have f2: "length (ys1 @ ys2) = length lo + length ro"
      using ia ib by simp
    have f3: "\<forall>y \<in> set (ys1 @ ys2). mset (boxes y) = mset (boxes d)"
      using ia ib by auto
    have f4: "Suc cap2 < length (boxes d2)"
      using ia ib adj cup by auto
    have f5: "mset (boxes d2) = mset (boxes d)"
      using ia ib by simp
    have f6: "boxes d2 ! cap2 = boxes d ! cap" and f7: "boxes d2 ! Suc cap2 = boxes d ! cup"
      using ia ib adj by auto
    from f1 f2 f3 f4 f5 f6 f7 show ?thesis
      by (intro exI [where x = "ys1 @ ys2"] exI [where x = d2] exI [where x = cap2] conjI)
  qed
qed

text \<open>C4: one snake elimination, on the snake that \<open>find_snake\<close> has found, when \<open>unsnake\<close>
  runs to its end: it yields one diagram for each interchange, that is one for each
  obstruction, each a rearrangement of the boxes of the diagram it started from, and then
  one more diagram, which has exactly two boxes fewer: the cap and the cup are gone and every
  other box is kept.\<close>

theorem C4_unsnake:
  assumes "find_snake d = Some (cup, cap, (lo, ro), left_snake)"
    and "unsnake d cup cap (lo, ro) left_snake = Inr ds"
  shows "length ds = length lo + length ro + 1
    \<and> (\<forall>y \<in> set (butlast ds). mset (boxes y) = mset (boxes d))
    \<and> length (boxes (last ds)) + 2 = length (boxes d)
    \<and> is_Cap (boxes d ! cap) \<and> is_Cup (boxes d ! cup)
    \<and> mset (boxes d) = mset (boxes (last ds)) + {#boxes d ! cap, boxes d ! cup#}
    \<and> ddom (last ds) = ddom d \<and> dcod (last ds) = dcod d"
proof -
  from unsnake_result [OF assms] obtain ys and d' :: diagram and cap' where
    ds: "ds = ys @ [\<lparr>ddom = ddom d, dcod = dcod d,
            boxes = take cap' (boxes d') @ drop (cap' + 2) (boxes d'),
            offsets = take cap' (offsets d') @ drop (cap' + 2) (offsets d')\<rparr>]"
    and ys: "length ys = length lo + length ro" "\<forall>y \<in> set ys. mset (boxes y) = mset (boxes d)"
    and d': "Suc cap' < length (boxes d')" "mset (boxes d') = mset (boxes d)"
      "boxes d' ! cap' = boxes d ! cap" "boxes d' ! Suc cap' = boxes d ! cup"
    by blast
  have len: "length (boxes d') = length (boxes d)"
    using d'(2) by (metis size_mset)
  note two = drop_two_adjacent [OF d'(1)]
  from find_snake_Some [OF assms(1)] have "is_Cap (boxes d ! cap)" "is_Cup (boxes d ! cup)"
    by simp_all
  with ds ys d' len two show ?thesis
    by (simp add: butlast_append)
qed

text \<open>The doctest of \<open>normalize\<close>: the snake found and the three diagrams yielded.\<close>

lemma doctest_find_snake: "find_snake doctest_diagram = Some (4, 1, ([2], [3]), True)"
  by code_simp

lemma doctest_unsnake:
  "unsnake doctest_diagram 4 1 ([2], [3]) True = Inr
    [doctest_diagram
       \<lparr>boxes := [AtomicBox ''g'' [Ob ''s'' 0, Ob ''n'' 0] [Ob ''n'' 0] False,
               AtomicBox ''f'' [Ob ''n'' 0] [Ob ''n'' 0] True,
               CapBox [Ob ''n'' 1] [Ob ''n'' 0],
               AtomicBox ''f'' [Ob ''n'' 0] [Ob ''n'' 0] False,
               CupBox [Ob ''n'' 0] [Ob ''n'' 1],
               AtomicBox ''h'' [Ob ''n'' 0] [Ob ''n'' 0, Ob ''s'' 0] False],
         offsets := [0, 0, 1, 2, 0, 0]\<rparr>,
     doctest_diagram
       \<lparr>boxes := [AtomicBox ''g'' [Ob ''s'' 0, Ob ''n'' 0] [Ob ''n'' 0] False,
               AtomicBox ''f'' [Ob ''n'' 0] [Ob ''n'' 0] True,
               CapBox [Ob ''n'' 1] [Ob ''n'' 0],
               CupBox [Ob ''n'' 0] [Ob ''n'' 1],
               AtomicBox ''f'' [Ob ''n'' 0] [Ob ''n'' 0] False,
               AtomicBox ''h'' [Ob ''n'' 0] [Ob ''n'' 0, Ob ''s'' 0] False],
         offsets := [0, 0, 1, 0, 0, 0]\<rparr>,
     doctest_diagram
       \<lparr>boxes := [AtomicBox ''g'' [Ob ''s'' 0, Ob ''n'' 0] [Ob ''n'' 0] False,
               AtomicBox ''f'' [Ob ''n'' 0] [Ob ''n'' 0] True,
               AtomicBox ''f'' [Ob ''n'' 0] [Ob ''n'' 0] False,
               AtomicBox ''h'' [Ob ''n'' 0] [Ob ''n'' 0, Ob ''s'' 0] False],
         offsets := [0, 0, 0, 0]\<rparr>]"
  by code_simp

theorem C4_unsnake_witness:
  "find_snake doctest_diagram = Some (4, 1, ([2], [3]), True)
   \<and> (\<exists>ds. unsnake doctest_diagram 4 1 ([2], [3]) True = Inr ds
      \<and> length ds = 3
      \<and> length (boxes (last ds)) + 2 = 6
      \<and> mset (boxes doctest_diagram) =
          mset (boxes (last ds)) + {#CapBox [Ob ''n'' 1] [Ob ''n'' 0], CupBox [Ob ''n'' 0] [Ob ''n'' 1]#})"
proof -
  have cap: "boxes doctest_diagram ! 1 = CapBox [Ob ''n'' 1] [Ob ''n'' 0]"
    and cup: "boxes doctest_diagram ! 4 = CupBox [Ob ''n'' 0] [Ob ''n'' 1]"
    and len: "length (boxes doctest_diagram) = 6"
    by (simp_all add: doctest_diagram_def)
  from C4_unsnake [OF doctest_find_snake doctest_unsnake] cap cup len doctest_find_snake
    doctest_unsnake
  show ?thesis by simp
qed

subsection \<open>The snakes of a transposed identity\<close>

lemma rev_upt_map: "rev [0..<n] = map (\<lambda>m. n - 1 - m) [0..<n]"
  by (rule nth_equalityI) (simp_all add: rev_nth)

lemma transpose_Id:
  "transpose_d (Id_diagram t) False = Inr (snakes t 0)"
proof -
  let ?n = "length t" and ?R = "ty_r t"
  have caps: "caps ?R t =
      Inr \<lparr>ddom = [], dcod = ?R @ t,
           boxes = map (\<lambda>m. CapBox [?R ! m] [t ! (?n - 1 - m)]) [0..<?n],
           offsets = [0..<?n]\<rparr>"
  proof -
    have "map (\<lambda>x. ?n - Suc (?n - Suc x)) [0..<?n] = [0..<?n]"
      by (rule map_idI) auto
    then show ?thesis
      by (simp add: caps_adjoint [of t ?R] rev_upt_map comp_def cong: map_cong)
  qed
  have cups: "cups t ?R =
      Inr \<lparr>ddom = t @ ?R, dcod = [],
           boxes = map (\<lambda>i. CupBox [t ! (?n - 1 - i)] [?R ! i]) [0..<?n],
           offsets = map (\<lambda>i. ?n - 1 - i) [0..<?n]\<rparr>"
    by (simp add: cups_adjoint [of t ?R])
  have off: "map (\<lambda>i. ?n - 1 - i + ?n) [0..<?n] = map (\<lambda>i. 2 * ?n - 1 - i) [0..<?n]"
    by (rule map_cong) auto
  show ?thesis
    using off
    by (simp add: transpose_d_def caps cups Id_diagram_def tensor_def then_d_def snakes_def
        of_layers_def snake_cap_def snake_cup_def comp_def)
qed

lemma follow_wire_loop_fw_list:
  "length (offsets d) = length (boxes d) \<Longrightarrow>
   follow_wire_loop d i j lo ro =
     fw_list (drop (Suc i) (zip (boxes d) (offsets d))) (Suc i) j lo ro (length (boxes d))"
proof (induction d i j lo ro rule: follow_wire_loop.induct)
  case (1 d i j lo ro)
  show ?case
  proof (cases "Suc i < length (boxes d)")
    case False
    with "1.prems" show ?thesis
      by (simp add: follow_wire_loop.simps [of d i j lo ro])
  next
    case True
    with "1.prems" have
      "drop (Suc i) (zip (boxes d) (offsets d)) =
         (boxes d ! Suc i, offsets d ! Suc i) # drop (Suc (Suc i)) (zip (boxes d) (offsets d))"
      by (simp add: Cons_nth_drop_Suc [symmetric])
    with True "1.IH" [OF True refl refl refl] "1.prems" show ?thesis
      by (simp add: follow_wire_loop.simps [of d i j lo ro] Let_def)
  qed
qed

lemma follow_wire_of_layers:
  "follow_wire (of_layers a b (l # ls)) 0 j = fw_list ls 1 j [] [] (Suc (length ls))"
  by (simp add: follow_wire_def follow_wire_loop_fw_list of_layers_def zip_map_fst_snd)

lemma fw_list_all_right:
  "\<forall>l \<in> set ls. j < snd l \<Longrightarrow>
   fw_list ls idx j lo ro len = (len, j, lo, ro @ [idx..<idx + length ls])"
proof (induction ls arbitrary: idx ro)
  case Nil
  then show ?case by simp
next
  case (Cons l ls)
  obtain box off where l: "l = (box, off)" by (cases l)
  with Cons.prems have off: "j < off" by simp
  have upt: "[idx..<idx + length (l # ls)] = idx # [Suc idx..<Suc idx + length ls]"
    by (simp add: upt_rec [of idx] del: upt_Suc)
  have "fw_list (l # ls) idx j lo ro len = fw_list ls (Suc idx) j lo (ro @ [idx]) len"
    using off l by simp
  also have "\<dots> = (len, j, lo, (ro @ [idx]) @ [Suc idx..<Suc idx + length ls])"
    using Cons.prems by (intro Cons.IH) simp
  finally show ?case
    by (simp only: upt append_assoc append_Cons append_Nil)
qed

lemma fw_list_caps:
  "a \<le> b \<Longrightarrow> a \<le> j \<Longrightarrow>
   fw_list (map (snake_cap t) [a..<b] @ rest) idx j lo ro len =
     fw_list rest (idx + (b - a)) (j + 2 * (b - a)) (lo @ [idx..<idx + (b - a)]) ro len"
proof (induction "b - a" arbitrary: a idx j lo)
  case 0
  then show ?case by simp
next
  case (Suc m)
  then have lt: "a < b" by simp
  then have upt: "[a..<b] = a # [Suc a..<b]"
    by (simp add: upt_conv_Cons)
  have step: "fw_list (map (snake_cap t) [a..<b] @ rest) idx j lo ro len =
      fw_list (map (snake_cap t) [Suc a..<b] @ rest) (Suc idx) (j + 2) (lo @ [idx]) ro len"
    using Suc.prems(2) by (simp add: upt snake_cap_def)
  have e2: "j + 2 + 2 * (b - Suc a) = j + 2 * (b - a)"
    and e3: "Suc idx + (b - Suc a) = idx + (b - a)"
    using lt by auto
  have "idx < idx + (b - a)"
    using lt by arith
  then have "[idx..<idx + (b - a)] = idx # [Suc idx..<idx + (b - a)]"
    by (rule upt_conv_Cons)
  then have e1: "[idx..<idx + (b - a)] = idx # [Suc idx..<Suc idx + (b - Suc a)]"
    by (simp only: e3)
  have "fw_list (map (snake_cap t) [Suc a..<b] @ rest) (Suc idx) (j + 2) (lo @ [idx]) ro len =
      fw_list rest (Suc idx + (b - Suc a)) (j + 2 + 2 * (b - Suc a))
        ((lo @ [idx]) @ [Suc idx..<Suc idx + (b - Suc a)]) ro len"
    using Suc.hyps(2) Suc.prems lt by (intro Suc.hyps(1)) auto
  also have "\<dots> = fw_list rest (idx + (b - a)) (j + 2 * (b - a))
        (lo @ [idx..<idx + (b - a)]) ro len"
    by (simp only: e1 e2 e3 append_assoc append_Cons append_Nil)
  finally show ?case
    using step by simp
qed

lemma snakes_layers:
  assumes "k < length t"
  shows "snakes t k =
    of_layers (ty_r t) (ty_r t)
      (snake_cap t k # map (snake_cap t) [Suc k..<length t] @ map (snake_cup t) [k..<length t])"
  using assms by (simp add: snakes_def upt_conv_Cons)

lemma snakes_find_snake:
  assumes k: "k < length t"
  shows "find_snake (snakes t k) =
    Some (length t - k, 0, ([1..<length t - k], []), False)"
proof -
  let ?n = "length t"
  let ?d = "snakes t k"
  let ?rest = "map (snake_cap t) [Suc k..<?n] @ map (snake_cup t) [k..<?n]"
  have len: "length (boxes ?d) = 2 * (?n - k)"
    by (simp add: snakes_def of_layers_def)
  have len_rest: "Suc (length ?rest) = 2 * (?n - k)"
    using k by simp
  have b0: "boxes ?d ! 0 = CapBox [ty_r t ! k] [t ! (?n - 1 - k)]" and o0: "offsets ?d ! 0 = k"
    using k by (simp_all add: snakes_layers of_layers_def snake_cap_def)
  have bc: "boxes ?d ! (?n - k) = CupBox [t ! (?n - 1 - k)] [ty_r t ! k]"
    and oc: "offsets ?d ! (?n - k) = 2 * ?n - 1 - k"
    using k by (simp_all add: snakes_def of_layers_def nth_append snake_cup_def)
  have left: "follow_wire ?d 0 k = (2 * (?n - k), k, [], [1..<2 * (?n - k)])"
  proof -
    have "\<forall>l \<in> set ?rest. k < snd l"
      using k by (auto simp add: snake_cap_def snake_cup_def)
    from fw_list_all_right [OF this, of 1 "[]" "[]" "Suc (length ?rest)"]
    have "fw_list ?rest 1 k [] [] (Suc (length ?rest)) =
        (Suc (length ?rest), k, [], [1..<1 + length ?rest])"
      by simp
    moreover have "1 + length ?rest = 2 * (?n - k)"
      using len_rest by simp
    ultimately show ?thesis
      unfolding snakes_layers [OF k] follow_wire_of_layers
      by (simp only: len_rest)
  qed
  have right: "follow_wire ?d 0 (k + 1) = (?n - k, 2 * ?n - 1 - k, [1..<?n - k], [])"
  proof -
    have cups: "map (snake_cup t) [k..<?n] = snake_cup t k # map (snake_cup t) [Suc k..<?n]"
      using k by (simp add: upt_conv_Cons)
    have "fw_list ?rest 1 (k + 1) [] [] (Suc (length ?rest)) =
        fw_list (map (snake_cup t) [k..<?n]) (1 + (?n - Suc k)) (k + 1 + 2 * (?n - Suc k))
          ([] @ [1..<1 + (?n - Suc k)]) [] (Suc (length ?rest))"
      using k by (intro fw_list_caps) auto
    also have "\<dots> = fw_list (map (snake_cup t) [k..<?n]) (?n - k) (2 * ?n - 1 - k)
          [1..<?n - k] [] (Suc (length ?rest))"
    proof -
      have "1 + (?n - Suc k) = ?n - k" "k + 1 + 2 * (?n - Suc k) = 2 * ?n - 1 - k"
        using k by arith+
      then show ?thesis by (simp only: append_Nil)
    qed
    also have "\<dots> = (?n - k, 2 * ?n - 1 - k, [1..<?n - k], [])"
      unfolding cups by (simp add: snake_cup_def)
    finally show ?thesis
      unfolding snakes_layers [OF k] follow_wire_of_layers by simp
  qed
  have t1: "try_wire ?d 0 True = None"
    using left len by (simp add: try_wire_def o0)
  have t2: "try_wire ?d 0 False = Some (?n - k, 0, ([1..<?n - k], []), False)"
    using right len k by (simp add: try_wire_def o0 bc oc)
  have "[0..<length (boxes ?d)] = 0 # [1..<length (boxes ?d)]"
    using len k by (simp add: upt_conv_Cons)
  then show ?thesis
    using b0 t1 t2 by (simp add: find_snake_def)
qed

lemma snakes_empty: "snakes t (length t) = Id_diagram (ty_r t)"
  by (simp add: snakes_def of_layers_def Id_diagram_def)

lemma find_snake_Id: "find_snake (Id_diagram a) = None"
  by (simp add: find_snake_def Id_diagram_def)

declare snake_removal.simps [code]

lemma swap_adjacent_of_layers:
  "swap_adjacent (of_layers a b (pre @ (b0, o0) # (b1, o1) # post)) (length pre) =
     (if o0 \<ge> o1 + length (gdom b1)
      then Inr (of_layers a b
             (pre @ (b1, o1) # (b0, o0 - length (gdom b1) + length (gcod b1)) # post))
      else if o1 \<ge> o0 + length (gcod b0)
      then Inr (of_layers a b
             (pre @ (b1, o1 - length (gcod b0) + length (gdom b0)) # (b0, o0) # post))
      else Inl InterchangerError)"
proof -
  have n0: "(map f pre @ x # y # zs) ! length pre = x"
    and n1: "(map f pre @ x # y # zs) ! Suc (length pre) = y"
    and u: "(map f pre @ x # y # zs)[length pre := x', Suc (length pre) := y'] =
              map f pre @ x' # y' # zs" for f :: "generator \<times> nat \<Rightarrow> 'c" and x y x' y' zs
    by (simp_all add: nth_append list_update_append)
  show ?thesis
    by (simp add: swap_adjacent_def of_layers_def Let_def n0 n1 u)
qed

lemma interchange_adjacent:
  "Suc i < length (boxes d) \<Longrightarrow> interchange d i (Suc i) = swap_adjacent d i"
  by (simp add: interchange.simps [of d i "Suc i"] split: sum.splits)

lemma snakes_moving_0:
  "k < length t \<Longrightarrow> snakes_moving t k 0 = snakes t k"
  by (simp add: snakes_moving_def snakes_def upt_conv_Cons snake_cup_def)

lemma snakes_moving_step:
  assumes k: "k < length t" and p: "k + p + 2 \<le> length t"
  shows "interchange (snakes_moving t k p) (length t - k - p - 1) (length t - k - p) =
    Inr (snakes_moving t k (Suc p))"
proof -
  let ?n = "length t"
  let ?pre = "snake_cap t k # map (snake_cap t) [Suc k..<?n - Suc p]"
  let ?cup = "fst (snake_cup t k)"
  let ?post = "map (snake_cap t) [?n - p..<?n] @ map (snake_cup t) [Suc k..<?n]"
  have last: "[Suc k..<?n - p] = [Suc k..<?n - Suc p] @ [?n - Suc p]"
  proof -
    have "?n - p = Suc (?n - Suc p)" "Suc k \<le> ?n - Suc p" using p by arith+
    then show ?thesis by (simp only: upt_Suc_append)
  qed
  have first: "[?n - Suc p..<?n] = (?n - Suc p) # [?n - p..<?n]"
  proof -
    have "?n - Suc p < ?n" "Suc (?n - Suc p) = ?n - p" using p by arith+
    then show ?thesis by (metis upt_conv_Cons)
  qed
  have d: "snakes_moving t k p =
      of_layers (ty_r t) (ty_r t)
        (?pre @ snake_cap t (?n - Suc p) # (?cup, 2 * ?n - 1 - k - 2 * p) # ?post)"
    by (simp add: snakes_moving_def last)
  have d': "snakes_moving t k (Suc p) =
      of_layers (ty_r t) (ty_r t)
        (?pre @ (?cup, 2 * ?n - 1 - k - 2 * Suc p) # snake_cap t (?n - Suc p) # ?post)"
    by (simp only: snakes_moving_def first list.map append_Cons append_Nil)
  have idx: "length ?pre = ?n - k - p - 1"
    using p by simp
  have idx': "Suc (?n - k - p - 1) = ?n - k - p"
    using p by arith
  have len: "Suc (length ?pre) < length (boxes (snakes_moving t k p))"
    unfolding d by (simp add: of_layers_def)
  have "interchange (snakes_moving t k p) (length ?pre) (Suc (length ?pre)) =
      swap_adjacent (snakes_moving t k p) (length ?pre)"
    by (rule interchange_adjacent [OF len])
  also have "\<dots> = Inr (snakes_moving t k (Suc p))"
    unfolding d d' snake_cap_def
    using p by (subst swap_adjacent_of_layers) (auto simp add: snake_cup_def)
  finally show ?thesis
    by (simp only: idx idx')
qed

lemma snakes_cup_loop:
  assumes k: "k < length t"
  shows "k + p + 1 \<le> length t \<Longrightarrow>
    \<exists>ys. right_snake_cup_loop (snakes_moving t k p) (length t - k - p)
            (rev [1..<length t - k - p]) [] =
          Inr (ys, snakes_moving t k (length t - 1 - k), 1, [])
        \<and> length ys = length t - 1 - k - p"
proof (induction "length t - 1 - k - p" arbitrary: p)
  case 0
  then have "length t - k - p = 1" "p = length t - 1 - k"
    by arith+
  then show ?case by simp
next
  case (Suc m)
  let ?n = "length t"
  let ?c = "?n - k - p"
  from Suc.hyps(2) have p: "k + p + 2 \<le> ?n" by arith
  have c: "?c = Suc (?c - 1)" "1 \<le> ?c - 1" using p by arith+
  have "[1..<?c] = [1..<?c - 1] @ [?c - 1]"
    by (subst c(1)) (simp only: upt_Suc_append [OF c(2)])
  then have rev: "rev [1..<?c] = (?c - 1) # rev [1..<?c - 1]"
    by simp
  have step: "interchange (snakes_moving t k p) (?c - 1) ?c = Inr (snakes_moving t k (Suc p))"
    using snakes_moving_step [OF k p] by simp
  have c': "?c - 1 = ?n - k - Suc p" by arith
  from Suc.hyps(2) have "m = ?n - 1 - k - Suc p" by arith
  moreover from p have "k + Suc p + 1 \<le> ?n" by arith
  ultimately obtain ys where
    ys: "right_snake_cup_loop (snakes_moving t k (Suc p)) (?n - k - Suc p)
            (rev [1..<?n - k - Suc p]) [] =
          Inr (ys, snakes_moving t k (?n - 1 - k), 1, [])"
      "length ys = ?n - 1 - k - Suc p"
    using Suc.hyps(1) [of "Suc p"] by blast
  have "right_snake_cup_loop (snakes_moving t k p) ?c (rev [1..<?c]) [] =
      Inr (snakes_moving t k (Suc p) # ys, snakes_moving t k (?n - 1 - k), 1, [])"
    unfolding rev
    by (simp only: right_snake_cup_loop.simps step sum.case list.map)
      (simp only: c' ys(1) sum.case prod.case)
  moreover have "length (snakes_moving t k (Suc p) # ys) = ?n - 1 - k - p"
    using ys(2) p by simp
  ultimately show ?case by blast
qed

lemma snakes_unsnake:
  assumes k: "k < length t"
  shows "\<exists>ys. unsnake (snakes t k) (length t - k) 0 ([1..<length t - k], []) False =
      Inr (ys @ [snakes t (Suc k)])"
proof -
  let ?n = "length t" and ?R = "ty_r t"
  let ?d1 = "snakes_moving t k (?n - 1 - k)"
  from snakes_cup_loop [OF k, of 0] k obtain ys where
    loop: "right_snake_cup_loop (snakes t k) (?n - k) (rev [1..<?n - k]) [] =
        Inr (ys, ?d1, 1, [])"
    by (auto simp add: snakes_moving_0)
  have n: "?n - (?n - 1 - k) = Suc k" "2 * ?n - 1 - k - 2 * (?n - 1 - k) = Suc k"
    using k by arith+
  have d1: "?d1 = of_layers ?R ?R
      (snake_cap t k # (fst (snake_cup t k), Suc k)
       # map (snake_cap t) [Suc k..<?n] @ map (snake_cup t) [Suc k..<?n])"
    by (simp only: snakes_moving_def n) simp
  have R: "take k ?R @ ?R ! k # drop (Suc k) ?R = ?R"
    using k by (simp add: id_take_nth_drop [symmetric])
  have scan0: "scan_to ?d1 0 = ?R"
    unfolding d1 by (simp add: scan_to_def of_layers_def)
  have scan2: "scan_to ?d1 (1 + 1) = ?R"
    unfolding d1 using k R by (simp add: scan_to_def of_layers_def snake_cap_def snake_cup_def)
  have final: "\<lparr>ddom = ddom ?d1, dcod = dcod ?d1,
        boxes = take 0 (boxes ?d1) @ drop (1 + 1) (boxes ?d1),
        offsets = take 0 (offsets ?d1) @ drop (1 + 1) (offsets ?d1)\<rparr> = snakes t (Suc k)"
    unfolding d1 by (simp add: of_layers_def snakes_def)
  have "unsnake (snakes t k) (?n - k) 0 ([1..<?n - k], []) False =
      Inr (ys @ [snakes t (Suc k)])"
    unfolding unsnake_def
    by (simp only: prod.case if_False loop sum.case right_snake_cap_loop.simps scan0 scan2
        final simp_thms append_Nil2)
  then show ?thesis by blast
qed

lemma snakes_removal:
  "k \<le> length t \<Longrightarrow>
   \<exists>zs. snake_removal (snakes t k) yielded = Some (Inr (yielded @ zs, Id_diagram (ty_r t)))
       \<and> (k < length t \<longrightarrow> zs \<noteq> [] \<and> last zs = Id_diagram (ty_r t))
       \<and> (k = length t \<longrightarrow> zs = [])"
proof (induction "length t - k" arbitrary: k yielded)
  case 0
  then have "k = length t" by simp
  then show ?case
    by (simp add: snakes_empty snake_removal.simps [of "Id_diagram (ty_r t)"] find_snake_Id)
next
  case (Suc m)
  then have k: "k < length t" by simp
  from snakes_unsnake [OF k] obtain ys where
    ys: "unsnake (snakes t k) (length t - k) 0 ([1..<length t - k], []) False =
      Inr (ys @ [snakes t (Suc k)])"
    by blast
  have step: "snake_removal (snakes t k) yielded =
      snake_removal (snakes t (Suc k)) (yielded @ ys @ [snakes t (Suc k)])"
    by (subst snake_removal.simps)
      (simp only: snakes_find_snake [OF k] option.case prod.case ys sum.case last_snoc)
  from Suc.hyps(2) k have "m = length t - Suc k" "Suc k \<le> length t"
    by simp_all
  from Suc.hyps(1) [OF this, of "yielded @ ys @ [snakes t (Suc k)]"] obtain zs where
    zs: "snake_removal (snakes t (Suc k)) (yielded @ ys @ [snakes t (Suc k)]) =
        Some (Inr ((yielded @ ys @ [snakes t (Suc k)]) @ zs, Id_diagram (ty_r t)))"
      "Suc k < length t \<longrightarrow> zs \<noteq> [] \<and> last zs = Id_diagram (ty_r t)"
      "Suc k = length t \<longrightarrow> zs = []"
    by blast
  let ?zs = "ys @ [snakes t (Suc k)] @ zs"
  have "snake_removal (snakes t k) yielded = Some (Inr (yielded @ ?zs, Id_diagram (ty_r t)))"
    using step zs(1) by simp
  moreover have "?zs \<noteq> []" by simp
  moreover have "last ?zs = Id_diagram (ty_r t)"
  proof (cases "Suc k = length t")
    case True
    with zs(3) show ?thesis by (simp add: snakes_empty)
  next
    case False
    with k zs(2) show ?thesis by simp
  qed
  ultimately show ?case using k by blast
qed

text \<open>The normalisation of a transposed identity, for a pass of monoidal.py that yields
  nothing on an identity.\<close>

lemma normalize_transpose_Id:
  assumes "flatten (Id_diagram (ty_r t)) = Inr []"
  shows "\<exists>ds. normalize_d flatten (snakes t 0) = Some (Inr ds)
      \<and> (t \<noteq> [] \<longrightarrow> ds \<noteq> [] \<and> last ds = Id_diagram (ty_r t))
      \<and> (t = [] \<longrightarrow> ds = [])"
proof -
  from snakes_removal [of 0 t "[]"] obtain zs where
    zs: "snake_removal (snakes t 0) [] = Some (Inr (zs, Id_diagram (ty_r t)))"
      "0 < length t \<longrightarrow> zs \<noteq> [] \<and> last zs = Id_diagram (ty_r t)"
      "0 = length t \<longrightarrow> zs = []"
    by auto
  have "normalize_d flatten (snakes t 0) = Some (Inr zs)"
    by (simp add: normalize_d_def zs(1) assms)
  with zs(2,3) show ?thesis by auto
qed

lemma normal_form_transpose_Id:
  assumes "flatten (Id_diagram (ty_r t)) = Inr []"
  shows "normal_form flatten (snakes t 0) = Some (Inr (Id_diagram (ty_r t)))"
proof -
  from normalize_transpose_Id [of flatten t, OF assms] obtain ds where
    ds: "normalize_d flatten (snakes t 0) = Some (Inr ds)"
      "t \<noteq> [] \<longrightarrow> ds \<noteq> [] \<and> last ds = Id_diagram (ty_r t)" "t = [] \<longrightarrow> ds = []"
    by blast
  show ?thesis
  proof (cases "t = []")
    case True
    with ds show ?thesis
      by (simp add: normal_form_def snakes_empty [of "[]", simplified])
  next
    case False
    with ds show ?thesis
      by (simp add: normal_form_def)
  qed
qed

text \<open>C1, as stated, fails: \<open>Id(n).transpose()\<close> is a diagram from \<open>n.r\<close> to \<open>n.r\<close>, and its
  normalisation ends with \<open>Id(n.r)\<close>, which is not \<open>Id(n)\<close>.\<close>

theorem C1_snake_law_counterexample:
  "transpose_d (Id_diagram [Ob ''n'' 0]) False =
     Inr \<lparr>ddom = [Ob ''n'' 1], dcod = [Ob ''n'' 1],
          boxes = [CapBox [Ob ''n'' 1] [Ob ''n'' 0], CupBox [Ob ''n'' 0] [Ob ''n'' 1]],
          offsets = [0, 1]\<rparr>
   \<and> normalize_d (\<lambda>d. Inr [])
       \<lparr>ddom = [Ob ''n'' 1], dcod = [Ob ''n'' 1],
        boxes = [CapBox [Ob ''n'' 1] [Ob ''n'' 0], CupBox [Ob ''n'' 0] [Ob ''n'' 1]],
        offsets = [0, 1]\<rparr> = Some (Inr [Id_diagram [Ob ''n'' 1]])
   \<and> normal_form (\<lambda>d. Inr [])
       \<lparr>ddom = [Ob ''n'' 1], dcod = [Ob ''n'' 1],
        boxes = [CapBox [Ob ''n'' 1] [Ob ''n'' 0], CupBox [Ob ''n'' 0] [Ob ''n'' 1]],
        offsets = [0, 1]\<rparr> = Some (Inr (Id_diagram [Ob ''n'' 1]))
   \<and> Id_diagram [Ob ''n'' 1] \<noteq> Id_diagram [Ob ''n'' 0]"
proof -
  let ?d = "\<lparr>ddom = [Ob ''n'' 1], dcod = [Ob ''n'' 1],
        boxes = [CapBox [Ob ''n'' 1] [Ob ''n'' 0], CupBox [Ob ''n'' 0] [Ob ''n'' 1]],
        offsets = [0, 1]\<rparr>"
  have r: "ty_r [Ob ''n'' 0] = [Ob ''n'' 1]"
    by (simp add: ty_r_def ob_r_def Ob_def)
  have d: "snakes [Ob ''n'' 0] 0 = ?d"
    by (simp add: snakes_def of_layers_def snake_cap_def snake_cup_def r)
  have t: "transpose_d (Id_diagram [Ob ''n'' 0]) False = Inr ?d"
    using transpose_Id [of "[Ob ''n'' 0]"] by (simp only: d)
  have n: "normalize_d (\<lambda>d. Inr []) ?d = Some (Inr [Id_diagram [Ob ''n'' 1]])"
    by code_simp
  have nf: "normal_form (\<lambda>d. Inr []) ?d = Some (Inr (Id_diagram [Ob ''n'' 1]))"
    by code_simp
  have "Id_diagram [Ob ''n'' 1] \<noteq> Id_diagram [Ob ''n'' 0]"
    by (simp add: Id_diagram_def Ob_def)
  with t n nf show ?thesis by simp
qed

text \<open>C1, amended: for every type \<open>t\<close>, \<open>Id(t).transpose()\<close> is a diagram from \<open>t.r\<close> to
  \<open>t.r\<close>; draining its normalisation terminates, and when \<open>t\<close> is not empty the last diagram
  yielded is \<open>Id(t.r)\<close> (for the empty type nothing is yielded); its normal form is
  \<open>Id(t.r)\<close>. The pass of monoidal.py that \<open>normalize\<close> ends with is any pass that yields
  nothing on an identity diagram.\<close>

theorem C1_snake_law:
  assumes "flatten (Id_diagram (ty_r t)) = Inr []"
  shows "\<exists>d. transpose_d (Id_diagram t) False = Inr d
      \<and> ddom d = ty_r t \<and> dcod d = ty_r t
      \<and> (\<exists>ds. normalize_d flatten d = Some (Inr ds)
            \<and> (t \<noteq> [] \<longrightarrow> ds \<noteq> [] \<and> last ds = Id_diagram (ty_r t))
            \<and> (t = [] \<longrightarrow> ds = []))
      \<and> normal_form flatten d = Some (Inr (Id_diagram (ty_r t)))"
proof -
  have "ddom (snakes t 0) = ty_r t" "dcod (snakes t 0) = ty_r t"
    by (simp_all add: snakes_def of_layers_def)
  with transpose_Id [of t] normalize_transpose_Id [of flatten t, OF assms] normal_form_transpose_Id [of flatten t, OF assms]
  show ?thesis by blast
qed

theorem C1_snake_law_witness:
  "(\<lambda>d. Inr []) (Id_diagram (ty_r [Ob ''a'' 0, Ob ''b'' 0])) = (Inr [] :: error + diagram list)
   \<and> (\<exists>d. transpose_d (Id_diagram [Ob ''a'' 0, Ob ''b'' 0]) False = Inr d
      \<and> (\<exists>ds. normalize_d (\<lambda>d. Inr []) d = Some (Inr ds)
            \<and> last ds = Id_diagram [Ob ''b'' 1, Ob ''a'' 1])
      \<and> normal_form (\<lambda>d. Inr []) d = Some (Inr (Id_diagram [Ob ''b'' 1, Ob ''a'' 1])))"
proof -
  have r: "ty_r [Ob ''a'' 0, Ob ''b'' 0] = [Ob ''b'' 1, Ob ''a'' 1]"
    by (simp add: ty_r_def ob_r_def Ob_def)
  from C1_snake_law [of "\<lambda>d. Inr []" "[Ob ''a'' 0, Ob ''b'' 0]"] show ?thesis
    unfolding r by auto
qed

text \<open>The doctest of \<open>normalize\<close>: three diagrams are yielded, the last one being
  \<open>g >> f[::-1] >> f >> h\<close>.\<close>

lemma doctest_normalize:
  "normalize_d (\<lambda>d. Inr []) doctest_diagram = Some (Inr
    [doctest_diagram
       \<lparr>boxes := [AtomicBox ''g'' [Ob ''s'' 0, Ob ''n'' 0] [Ob ''n'' 0] False,
               AtomicBox ''f'' [Ob ''n'' 0] [Ob ''n'' 0] True,
               CapBox [Ob ''n'' 1] [Ob ''n'' 0],
               AtomicBox ''f'' [Ob ''n'' 0] [Ob ''n'' 0] False,
               CupBox [Ob ''n'' 0] [Ob ''n'' 1],
               AtomicBox ''h'' [Ob ''n'' 0] [Ob ''n'' 0, Ob ''s'' 0] False],
         offsets := [0, 0, 1, 2, 0, 0]\<rparr>,
     doctest_diagram
       \<lparr>boxes := [AtomicBox ''g'' [Ob ''s'' 0, Ob ''n'' 0] [Ob ''n'' 0] False,
               AtomicBox ''f'' [Ob ''n'' 0] [Ob ''n'' 0] True,
               CapBox [Ob ''n'' 1] [Ob ''n'' 0],
               CupBox [Ob ''n'' 0] [Ob ''n'' 1],
               AtomicBox ''f'' [Ob ''n'' 0] [Ob ''n'' 0] False,
               AtomicBox ''h'' [Ob ''n'' 0] [Ob ''n'' 0, Ob ''s'' 0] False],
         offsets := [0, 0, 1, 0, 0, 0]\<rparr>,
     doctest_diagram
       \<lparr>boxes := [AtomicBox ''g'' [Ob ''s'' 0, Ob ''n'' 0] [Ob ''n'' 0] False,
               AtomicBox ''f'' [Ob ''n'' 0] [Ob ''n'' 0] True,
               AtomicBox ''f'' [Ob ''n'' 0] [Ob ''n'' 0] False,
               AtomicBox ''h'' [Ob ''n'' 0] [Ob ''n'' 0, Ob ''s'' 0] False],
         offsets := [0, 0, 0, 0]\<rparr>])"
  by code_simp

subsection \<open>Functors\<close>

lemma cups_Inr:
  assumes "cups a b = Inr img"
  shows "ddom img = a @ b \<and> dcod img = []"
proof (cases "ty_r a = b")
  case True
  from cups_adjoint [OF this] assms show ?thesis by auto
next
  case False
  show ?thesis
  proof (cases "ty_r b = a")
    case True
    with False have "a \<noteq> []" by (auto simp add: ty_r_def)
    from cups_wrong_direction [OF True this] assms show ?thesis by simp
  next
    case nb: False
    with False assms show ?thesis
      by (simp add: cups_def cups_with_def)
  qed
qed

lemma caps_Inr:
  assumes "caps a b = Inr img"
  shows "ddom img = [] \<and> dcod img = a @ b"
proof (cases "ty_r b = a")
  case True
  from caps_adjoint [OF this] assms show ?thesis by auto
next
  case False
  show ?thesis
  proof (cases "ty_r a = b")
    case True
    with False have "a \<noteq> []" by (auto simp add: ty_r_def)
    from caps_wrong_direction [OF True this] assms show ?thesis by simp
  next
    case nb: False
    with False assms show ?thesis
      by (simp add: caps_def cups_with_def)
  qed
qed

lemma monoidalD:
  assumes "monoidal T A"
  shows "ty_tensor T (ty_tensor T x y) w = ty_tensor T x (ty_tensor T y w)"
    and "ty_tensor T (ty_unit T) x = x"
    and "ty_tensor T x (ty_unit T) = x"
    and "adj_r T (adj_l T x) = x"
    and "ar_dom A (ar_id A x) = x"
    and "ar_cod A (ar_id A x) = x"
    and "ar_cod A f = ar_dom A g \<Longrightarrow>
           \<exists>h. ar_then A f g = Inr h \<and> ar_dom A h = ar_dom A f \<and> ar_cod A h = ar_cod A g"
    and "ar_then A f (ar_id A (ar_cod A f)) = Inr f"
    and "ar_then A f g = Inr fg \<Longrightarrow> ar_then A g h = Inr gh \<Longrightarrow>
           ar_then A fg h = ar_then A f gh"
    and "ar_dom A (ar_tensor A f g) = ty_tensor T (ar_dom A f) (ar_dom A g)"
    and "ar_cod A (ar_tensor A f g) = ty_tensor T (ar_cod A f) (ar_cod A g)"
    and "ar_tensor A (ar_id A x) (ar_id A y) = ar_id A (ty_tensor T x y)"
    and "ar_tensor A (ar_tensor A f g) h = ar_tensor A f (ar_tensor A g h)"
    and "ar_then A f g = Inr h \<Longrightarrow>
           ar_then A (ar_tensor A f (ar_id A x)) (ar_tensor A g (ar_id A x))
             = Inr (ar_tensor A h (ar_id A x))"
    and "ar_then A f g = Inr h \<Longrightarrow>
           ar_then A (ar_tensor A (ar_id A x) f) (ar_tensor A (ar_id A x) g)
             = Inr (ar_tensor A (ar_id A x) h)"
    and "ar_then A (ar_tensor A f (ar_id A (ar_dom A g)))
           (ar_tensor A (ar_id A (ar_cod A f)) g) = Inr (ar_tensor A f g)"
    and "ar_cups A x y = Inr c \<Longrightarrow> ar_dom A c = ty_tensor T x y \<and> ar_cod A c = ty_unit T"
    and "ar_caps A x y = Inr c \<Longrightarrow> ar_dom A c = ty_unit T \<and> ar_cod A c = ty_tensor T x y"
    and "\<exists>c. ar_cups A x (adj_r T x) = Inr c"
    and "\<exists>c. ar_caps A (adj_r T x) x = Inr c"
proof -
  note m = assms [unfolded monoidal_def]
  note c1 = m [THEN conjunct1, rule_format] and r1 = m [THEN conjunct2]
  note c2 = r1 [THEN conjunct1, rule_format] and r2 = r1 [THEN conjunct2]
  note c3 = r2 [THEN conjunct1, rule_format] and r3 = r2 [THEN conjunct2]
  note c4 = r3 [THEN conjunct1, rule_format] and r4 = r3 [THEN conjunct2]
  note c5 = r4 [THEN conjunct1, rule_format] and r5 = r4 [THEN conjunct2]
  note c6 = r5 [THEN conjunct1, rule_format] and r6 = r5 [THEN conjunct2]
  note c7 = r6 [THEN conjunct1, rule_format] and r7 = r6 [THEN conjunct2]
  note c8 = r7 [THEN conjunct1, rule_format] and r8 = r7 [THEN conjunct2]
  note c9 = r8 [THEN conjunct1, rule_format] and r9 = r8 [THEN conjunct2]
  note c10 = r9 [THEN conjunct1, rule_format] and r10 = r9 [THEN conjunct2]
  note c11 = r10 [THEN conjunct1, rule_format] and r11 = r10 [THEN conjunct2]
  note c12 = r11 [THEN conjunct1, rule_format] and r12 = r11 [THEN conjunct2]
  note c13 = r12 [THEN conjunct1, rule_format] and r13 = r12 [THEN conjunct2]
  note c14 = r13 [THEN conjunct1, rule_format] and r14 = r13 [THEN conjunct2]
  note c15 = r14 [THEN conjunct1, rule_format] and c16 = r14 [THEN conjunct2, rule_format]
  show "ty_tensor T (ty_tensor T x y) w = ty_tensor T x (ty_tensor T y w)"
    by (rule c1)
  show "ty_tensor T (ty_unit T) x = x"
    by (rule c2 [THEN conjunct1])
  show "ty_tensor T x (ty_unit T) = x"
    by (rule c2 [THEN conjunct2])
  show "adj_r T (adj_l T x) = x"
    by (rule c3)
  show "ar_dom A (ar_id A x) = x"
    by (rule c4 [THEN conjunct1])
  show "ar_cod A (ar_id A x) = x"
    by (rule c4 [THEN conjunct2])
  show "ar_cod A f = ar_dom A g \<Longrightarrow>
           \<exists>h. ar_then A f g = Inr h \<and> ar_dom A h = ar_dom A f \<and> ar_cod A h = ar_cod A g"
    by (rule c5)
  show "ar_then A f (ar_id A (ar_cod A f)) = Inr f"
    by (rule c6)
  show "ar_then A f g = Inr fg \<Longrightarrow> ar_then A g h = Inr gh \<Longrightarrow>
           ar_then A fg h = ar_then A f gh"
    by (rule c7) simp
  show "ar_dom A (ar_tensor A f g) = ty_tensor T (ar_dom A f) (ar_dom A g)"
    by (rule c8 [THEN conjunct1])
  show "ar_cod A (ar_tensor A f g) = ty_tensor T (ar_cod A f) (ar_cod A g)"
    by (rule c8 [THEN conjunct2])
  show "ar_tensor A (ar_id A x) (ar_id A y) = ar_id A (ty_tensor T x y)"
    by (rule c9)
  show "ar_tensor A (ar_tensor A f g) h = ar_tensor A f (ar_tensor A g h)"
    by (rule c10)
  show "ar_then A f g = Inr h \<Longrightarrow>
           ar_then A (ar_tensor A f (ar_id A x)) (ar_tensor A g (ar_id A x))
             = Inr (ar_tensor A h (ar_id A x))"
    by (rule c11 [THEN conjunct1])
  show "ar_then A f g = Inr h \<Longrightarrow>
           ar_then A (ar_tensor A (ar_id A x) f) (ar_tensor A (ar_id A x) g)
             = Inr (ar_tensor A (ar_id A x) h)"
    by (rule c11 [THEN conjunct2])
  show "ar_then A (ar_tensor A f (ar_id A (ar_dom A g)))
           (ar_tensor A (ar_id A (ar_cod A f)) g) = Inr (ar_tensor A f g)"
    by (rule c12)
  show "ar_cups A x y = Inr c \<Longrightarrow> ar_dom A c = ty_tensor T x y \<and> ar_cod A c = ty_unit T"
    by (rule c13)
  show "ar_caps A x y = Inr c \<Longrightarrow> ar_dom A c = ty_unit T \<and> ar_cod A c = ty_tensor T x y"
    by (rule c14)
  show "\<exists>c. ar_cups A x (adj_r T x) = Inr c"
    by (rule c15)
  show "\<exists>c. ar_caps A (adj_r T x) x = Inr c"
    by (rule c16)
qed

lemma Diagram_monoidal: "monoidal Ty_factory Diagram_factory"
proof -
  have a1: "\<forall>x y w. (x @ y) @ w = x @ (y @ w)" for x :: ty
    by simp
  have a2: "\<forall>x. [] @ x = x \<and> x @ [] = x" for x :: ty
    by simp
  have a3: "\<forall>x. ty_r (ty_l x) = x"
    by simp
  have a4: "\<forall>x. ddom (Id_diagram x) = x \<and> dcod (Id_diagram x) = x"
    by (simp add: Id_diagram_def)
  have a5: "\<forall>f g. dcod f = ddom g \<longrightarrow>
      (\<exists>h. then_d f g = Inr h \<and> ddom h = ddom f \<and> dcod h = dcod g)"
    by (simp add: then_d_def)
  have a6: "\<forall>f. then_d f (Id_diagram (dcod f)) = Inr f"
    by (simp add: then_d_def Id_diagram_def)
  have a7: "\<forall>f g h fg gh. then_d f g = Inr fg \<and> then_d g h = Inr gh \<longrightarrow>
      then_d fg h = then_d f gh"
    by (auto simp add: then_d_def split: if_splits)
  have a8: "\<forall>f g. ddom (tensor f g) = ddom f @ ddom g \<and> dcod (tensor f g) = dcod f @ dcod g"
    by (simp add: tensor_def)
  have a9: "\<forall>x y. tensor (Id_diagram x) (Id_diagram y) = Id_diagram (x @ y)"
    by (simp add: tensor_def Id_diagram_def)
  have a10: "\<forall>f g h. tensor (tensor f g) h = tensor f (tensor g h)"
    by (simp add: tensor_def comp_def ac_simps)
  have a11: "\<forall>f g h x. then_d f g = Inr h \<longrightarrow>
      then_d (tensor f (Id_diagram x)) (tensor g (Id_diagram x)) = Inr (tensor h (Id_diagram x))
      \<and> then_d (tensor (Id_diagram x) f) (tensor (Id_diagram x) g)
          = Inr (tensor (Id_diagram x) h)"
    by (auto simp add: then_d_def tensor_def Id_diagram_def split: if_splits)
  have a12: "\<forall>f g. then_d (tensor f (Id_diagram (ddom g))) (tensor (Id_diagram (dcod f)) g)
      = Inr (tensor f g)"
    by (simp add: then_d_def tensor_def Id_diagram_def)
  have a13: "\<forall>x y c. cups x y = Inr c \<longrightarrow> ddom c = x @ y \<and> dcod c = []"
    using cups_Inr by blast
  have a14: "\<forall>x y c. caps x y = Inr c \<longrightarrow> ddom c = [] \<and> dcod c = x @ y"
    using caps_Inr by blast
  have a15: "\<forall>x. \<exists>c. cups x (ty_r x) = Inr c"
    using cups_adjoint by blast
  have a16: "\<forall>x. \<exists>c. caps (ty_r x) x = Inr c"
    using caps_adjoint by blast
  show ?thesis
    unfolding monoidal_def Ty_factory_def Diagram_factory_def
    apply (simp only: ob_factory.select_convs ar_factory.select_convs)
    apply (intro conjI)
    apply (rule a1 a2 a3 a4 a5 a6 a7 a8 a9 a10 a11 a12 a13 a14 a15 a16)+
    done
qed

lemma foldl_tensor:
  assumes "monoidal T A"
  shows "foldl (ty_tensor T) a bs = ty_tensor T a (foldl (ty_tensor T) (ty_unit T) bs)"
proof (induction bs arbitrary: a)
  case Nil
  show ?case by (simp add: monoidalD(3) [OF assms])
next
  case (Cons b bs)
  have "foldl (ty_tensor T) a (b # bs) = foldl (ty_tensor T) (ty_tensor T a b) bs"
    by simp
  also have "\<dots> = ty_tensor T (ty_tensor T a b) (foldl (ty_tensor T) (ty_unit T) bs)"
    by (rule Cons.IH)
  also have "\<dots> = ty_tensor T a (ty_tensor T b (foldl (ty_tensor T) (ty_unit T) bs))"
    by (rule monoidalD(1) [OF assms])
  also have "ty_tensor T b (foldl (ty_tensor T) (ty_unit T) bs) = foldl (ty_tensor T) b bs"
    by (rule Cons.IH [symmetric])
  also have "foldl (ty_tensor T) b bs = foldl (ty_tensor T) (ty_unit T) (b # bs)"
    by (simp add: monoidalD(2) [OF assms])
  finally show ?case .
qed

lemma adjoints_append:
  "adjoints F (x @ y) =
     (case adjoints F x of
        Inl e \<Rightarrow> Inl e
      | Inr as \<Rightarrow> (case adjoints F y of Inl e \<Rightarrow> Inl e | Inr bs \<Rightarrow> Inr (as @ bs)))"
  by (induction x) (auto split: sum.splits)

lemma functor_ty_Nil: "functor_ty F [] = Inr (ty_unit (ob_factory F))"
  by (simp add: functor_ty_def)

lemma functor_ty_append:
  assumes "monoidal (ob_factory F) (ar_factory F)"
  shows "functor_ty F (x @ y) =
     (case functor_ty F x of
        Inl e \<Rightarrow> Inl e
      | Inr a \<Rightarrow> (case functor_ty F y of Inl e \<Rightarrow> Inl e | Inr b \<Rightarrow> Inr (otimes F a b)))"
proof -
  have "foldl (otimes F) (ty_unit (ob_factory F)) (as @ bs) =
      otimes F (foldl (otimes F) (ty_unit (ob_factory F)) as)
        (foldl (otimes F) (ty_unit (ob_factory F)) bs)" for as bs
    using foldl_tensor [OF assms, of "foldl (otimes F) (ty_unit (ob_factory F)) as" bs]
    by simp
  then show ?thesis
    by (simp add: functor_ty_def adjoints_append split: sum.splits)
qed

lemma functor_ty_appendD:
  assumes "monoidal (ob_factory F) (ar_factory F)" and "functor_ty F (x @ y) = Inr c"
  shows "\<exists>a b. functor_ty F x = Inr a \<and> functor_ty F y = Inr b \<and> c = otimes F a b"
  using assms(2) unfolding functor_ty_append [OF assms(1)] by (auto split: sum.splits)

lemma functor_ty_single:
  assumes "monoidal (ob_factory F) (ar_factory F)"
  shows "functor_ty F [x] = adjoint F x"
  by (simp add: functor_ty_def monoidalD(2) [OF assms] split: sum.splits)

lemma functor_ty_defined:
  "\<forall>x \<in> set t. name x \<in> dom (ob F) \<Longrightarrow> \<exists>a. functor_ty F t = Inr a"
proof -
  have "\<forall>x \<in> set t. name x \<in> dom (ob F) \<Longrightarrow> \<exists>as. adjoints F t = Inr as"
    by (induction t) (auto simp add: adjoint_def split: option.splits)
  then show "\<forall>x \<in> set t. name x \<in> dom (ob F) \<Longrightarrow> \<exists>a. functor_ty F t = Inr a"
    by (auto simp add: functor_ty_def)
qed

lemma adjoint_ob_r:
  assumes "monoidal (ob_factory F) (ar_factory F)" and "adjoint F x = Inr a"
  shows "adjoint F (ob_r x) = Inr (adj_r (ob_factory F) a)"
proof -
  from assms(2) obtain R where R: "ob F (name x) = Some R"
    by (auto simp add: adjoint_def split: option.splits)
  have nz: "name (ob_r x) = name x" "z (ob_r x) = z x + 1"
    by (simp_all add: ob_r_def Ob_def)
  let ?l = "adj_l (ob_factory F)" and ?r = "adj_r (ob_factory F)"
  note rl = monoidalD(4) [OF assms(1)]
  consider "z x < - 1" | "z x = - 1" | "z x = 0" | "0 < z x" by linarith
  then show ?thesis
  proof cases
    case 1
    then have "nat (- z x) = Suc (nat (- (z x + 1)))" by simp
    then have "(?l ^^ nat (- z x)) R = ?l ((?l ^^ nat (- (z x + 1))) R)"
      by simp
    with 1 R assms(2) nz show ?thesis
      by (auto simp add: adjoint_def rl)
  next
    case 2
    with R assms(2) nz show ?thesis
      by (auto simp add: adjoint_def rl)
  next
    case 3
    with R assms(2) nz show ?thesis
      by (auto simp add: adjoint_def)
  next
    case 4
    then have "nat (z x + 1) = Suc (nat (z x))" by simp
    then have "(?r ^^ nat (z x + 1)) R = ?r ((?r ^^ nat (z x)) R)"
      by simp
    with 4 R assms(2) nz show ?thesis
      by (auto simp add: adjoint_def)
  qed
qed

lemma constructed_Cup:
  assumes "constructed (CupBox l r)"
  obtains x where "l = [x]" "r = [ob_r x]"
proof -
  from assms have len: "length l = 1" "length r = 1" and adj: "ty_r l = r"
    by (auto simp add: Cup_def split: if_splits)
  from len(1) obtain x where l: "l = [x]"
    by (cases l) auto
  with adj have "r = [ob_r x]"
    by (simp add: ty_r_def)
  with l that show ?thesis by blast
qed

lemma constructed_Cap:
  assumes "constructed (CapBox l r)"
  obtains x where "l = [ob_r x]" "r = [x]"
proof -
  from assms have len: "length l = 1" "length r = 1" and adj: "l = ty_r r"
    by (auto simp add: Cap_def split: if_splits)
  from len(2) obtain x where r: "r = [x]"
    by (cases r) auto
  with adj have "l = [ob_r x]"
    by (simp add: ty_r_def)
  with r that show ?thesis by blast
qed

lemma functor_box_typed:
  assumes laws: "monoidal (ob_factory F) (ar_factory F)"
    and con: "constructed g" and im: "box_image F g"
  shows "\<exists>img. functor_box F g = Inr img
    \<and> functor_ty F (gdom g) = Inr (dom_of F img)
    \<and> functor_ty F (gcod g) = Inr (cod_of F img)"
proof (cases "is_Cup g \<or> is_Cap g")
  case False
  with im show ?thesis
    by (auto simp add: box_image_def functor_box_def)
next
  case True
  note single = functor_ty_single [OF laws]
  show ?thesis
  proof (cases g)
    case (CupBox l r)
    with con obtain x where lr: "l = [x]" "r = [ob_r x]"
      using constructed_Cup by blast
    from im CupBox lr have "name x \<in> dom (ob F)"
      by (simp add: box_image_def)
    then obtain a where a: "adjoint F x = Inr a"
      by (auto simp add: adjoint_def)
    note ar = adjoint_ob_r [OF laws a]
    from monoidalD(19) [OF laws, of a] obtain c where
      c: "ar_cups (ar_factory F) a (adj_r (ob_factory F) a) = Inr c"
      by blast
    note ty = monoidalD(17) [OF laws c]
    have box: "functor_box F g = Inr c"
      using CupBox lr a ar c by (simp add: functor_box_def slice_def single)
    have "functor_ty F ([x] @ [ob_r x]) = Inr (otimes F a (adj_r (ob_factory F) a))"
      unfolding functor_ty_append [OF laws] by (simp add: single a ar)
    then have d: "functor_ty F (gdom g) = Inr (dom_of F c)"
      using CupBox lr ty by simp
    have "functor_ty F (gcod g) = Inr (cod_of F c)"
      using CupBox ty by (simp add: functor_ty_Nil)
    with box d show ?thesis by blast
  next
    case (CapBox l r)
    with con obtain x where lr: "l = [ob_r x]" "r = [x]"
      using constructed_Cap by blast
    from im CapBox lr have "name x \<in> dom (ob F)"
      by (simp add: box_image_def)
    then obtain a where a: "adjoint F x = Inr a"
      by (auto simp add: adjoint_def)
    note ar = adjoint_ob_r [OF laws a]
    from monoidalD(20) [OF laws, of a] obtain c where
      c: "ar_caps (ar_factory F) (adj_r (ob_factory F) a) a = Inr c"
      by blast
    note ty = monoidalD(18) [OF laws c]
    have box: "functor_box F g = Inr c"
      using CapBox lr a ar c by (simp add: functor_box_def slice_def single)
    have "functor_ty F ([ob_r x] @ [x]) = Inr (otimes F (adj_r (ob_factory F) a) a)"
      unfolding functor_ty_append [OF laws] by (simp add: single a ar)
    then have d: "functor_ty F (gcod g) = Inr (cod_of F c)"
      using CapBox lr ty by simp
    have "functor_ty F (gdom g) = Inr (dom_of F c)"
      using CapBox ty by (simp add: functor_ty_Nil)
    with box d show ?thesis by blast
  next
    case (AtomicBox n d c dg)
    with True show ?thesis by simp
  next
    case (SwapBox l r)
    with True show ?thesis by simp
  qed
qed

text \<open>The image of one layer: it goes from the image of the type before the layer to the
  image of the type after it.\<close>

lemma layer_typed:
  assumes laws: "monoidal (ob_factory F) (ar_factory F)"
    and range: "off + length (gdom g) \<le> length M"
    and slice: "take (length (gdom g)) (drop off M) = gdom g"
    and con: "constructed g" and im: "box_image F g"
    and M: "functor_ty F M = Inr CM"
  obtains A img B where
    "functor_ty F (take off M) = Inr A"
    "functor_box F g = Inr img"
    "functor_ty F (drop (off + length (gdom g)) M) = Inr B"
    "dom_of F (par F (par F (ident F A) img) (ident F B)) = CM"
    "functor_ty F (take off M @ gcod g @ drop (off + length (gdom g)) M)
       = Inr (cod_of F (par F (par F (ident F A) img) (ident F B)))"
proof -
  have split: "M = take off M @ gdom g @ drop (off + length (gdom g)) M"
  proof -
    have "drop off M = take (length (gdom g)) (drop off M) @ drop (length (gdom g)) (drop off M)"
      by (simp only: append_take_drop_id)
    also have "take (length (gdom g)) (drop off M) = gdom g"
      by (rule slice)
    also have "drop (length (gdom g)) (drop off M) = drop (off + length (gdom g)) M"
      by (simp add: add.commute)
    finally have "drop off M = gdom g @ drop (off + length (gdom g)) M" .
    then show ?thesis
      by (metis append_take_drop_id)
  qed
  from M split have "functor_ty F (take off M @ gdom g @ drop (off + length (gdom g)) M) = Inr CM"
    by simp
  from functor_ty_appendD [OF laws this] obtain A R where
    A: "functor_ty F (take off M) = Inr A"
    and R: "functor_ty F (gdom g @ drop (off + length (gdom g)) M) = Inr R"
    and CM: "CM = otimes F A R"
    by blast
  from functor_ty_appendD [OF laws R] obtain X B where
    X: "functor_ty F (gdom g) = Inr X"
    and B: "functor_ty F (drop (off + length (gdom g)) M) = Inr B"
    and R': "R = otimes F X B"
    by blast
  from functor_box_typed [OF laws con im] obtain img where
    img: "functor_box F g = Inr img"
    and d: "functor_ty F (gdom g) = Inr (dom_of F img)"
    and c: "functor_ty F (gcod g) = Inr (cod_of F img)"
    by blast
  from X d have Xd: "X = dom_of F img" by simp
  let ?L = "par F (par F (ident F A) img) (ident F B)"
  have "dom_of F ?L = otimes F (otimes F A X) B"
    by (simp add: monoidalD(10) [OF laws] monoidalD(5) [OF laws] Xd)
  also have "\<dots> = CM"
    by (simp add: CM R' monoidalD(1) [OF laws])
  finally have dom: "dom_of F ?L = CM" .
  have "functor_ty F (take off M @ gcod g @ drop (off + length (gdom g)) M)
      = Inr (otimes F A (otimes F (cod_of F img) B))"
    unfolding functor_ty_append [OF laws] by (simp add: A B c)
  also have "otimes F A (otimes F (cod_of F img) B) = cod_of F ?L"
    by (simp add: monoidalD(11) [OF laws] monoidalD(6) [OF laws] monoidalD(1) [OF laws])
  finally have cod: "functor_ty F (take off M @ gcod g @ drop (off + length (gdom g)) M)
      = Inr (cod_of F ?L)" .
  from that [OF A img B dom cod] show ?thesis .
qed

lemma functor_loop_typed:
  assumes laws: "monoidal (ob_factory F) (ar_factory F)"
  shows "well_typed_from scan ls cod \<Longrightarrow>
    \<forall>l \<in> set ls. constructed (fst l) \<and> box_image F (fst l) \<Longrightarrow>
    functor_ty F scan = Inr S \<Longrightarrow> cod_of F r = S \<Longrightarrow>
    \<exists>e. functor_loop F scan r ls = Inr e \<and> dom_of F e = dom_of F r
      \<and> functor_ty F cod = Inr (cod_of F e)"
proof (induction ls arbitrary: scan r S)
  case Nil
  then show ?case by simp
next
  case (Cons l ls)
  obtain g off where l: "l = (g, off)" by (cases l)
  let ?scan' = "take off scan @ gcod g @ drop (off + length (gdom g)) scan"
  from Cons.prems(1) have range: "off + length (gdom g) \<le> length scan"
    and slice: "take (length (gdom g)) (drop off scan) = gdom g"
    and wt: "well_typed_from ?scan' ls cod"
    by (simp_all add: l)
  from Cons.prems(2) have con: "constructed g" and im: "box_image F g"
    and rest: "\<forall>l \<in> set ls. constructed (fst l) \<and> box_image F (fst l)"
    by (simp_all add: l)
  from layer_typed [OF laws range slice con im Cons.prems(3)] obtain A img B where
    A: "functor_ty F (take off scan) = Inr A"
    and img: "functor_box F g = Inr img"
    and B: "functor_ty F (drop (off + length (gdom g)) scan) = Inr B"
    and dom: "dom_of F (par F (par F (ident F A) img) (ident F B)) = S"
    and cod: "functor_ty F ?scan' = Inr (cod_of F (par F (par F (ident F A) img) (ident F B)))"
    by blast
  let ?L = "par F (par F (ident F A) img) (ident F B)"
  from Cons.prems(4) dom have "cod_of F r = dom_of F ?L" by simp
  from monoidalD(7) [OF laws this] obtain r' where
    r': "seq F r ?L = Inr r'" "dom_of F r' = dom_of F r" "cod_of F r' = cod_of F ?L"
    by blast
  from Cons.IH [OF wt rest cod r'(3)] obtain e where
    e: "functor_loop F ?scan' r' ls = Inr e" "dom_of F e = dom_of F r'"
      "functor_ty F cod = Inr (cod_of F e)"
    by blast
  have "functor_loop F scan r (l # ls) = Inr e"
    by (simp add: l A img B r'(1) e(1))
  with e r'(2) show ?case by simp
qed

lemma functor_loop_append:
  "functor_loop F s r (ls1 @ ls2) =
     (case functor_loop F s r ls1 of
        Inl e \<Rightarrow> Inl e
      | Inr r1 \<Rightarrow> functor_loop F (scan_type s ls1) r1 ls2)"
  by (induction ls1 arbitrary: s r) (auto split: sum.splits)

lemma well_typed_from_scan:
  "well_typed_from s ls cod \<Longrightarrow> scan_type s ls = cod"
  by (induction ls arbitrary: s) auto

lemma well_typed_from_append:
  "well_typed_from s (ls1 @ ls2) cod \<longleftrightarrow>
     well_typed_from s ls1 (scan_type s ls1) \<and> well_typed_from (scan_type s ls1) ls2 cod"
  by (induction ls1 arbitrary: s) auto

text \<open>The image of the layers, composed after an arrow \<open>r\<close>, is \<open>r\<close> composed with their image
  after the identity.\<close>

lemma functor_loop_rebase:
  assumes laws: "monoidal (ob_factory F) (ar_factory F)"
  shows "well_typed_from scan ls cod \<Longrightarrow>
    \<forall>l \<in> set ls. constructed (fst l) \<and> box_image F (fst l) \<Longrightarrow>
    functor_ty F scan = Inr S \<Longrightarrow> cod_of F r = S \<Longrightarrow>
    \<exists>e e'. functor_loop F scan (ident F S) ls = Inr e
      \<and> functor_loop F scan r ls = Inr e' \<and> seq F r e = Inr e'"
proof (induction ls arbitrary: cod rule: rev_induct)
  case Nil
  then show ?case
    using monoidalD(8) [OF laws, of r] by simp
next
  case (snoc l ls)
  obtain g off where l: "l = (g, off)" by (cases l)
  let ?M = "scan_type scan ls"
  from snoc.prems(1) have wt: "well_typed_from scan ls ?M"
    and last: "well_typed_from ?M [l] cod"
    by (simp_all add: well_typed_from_append)
  from last have range: "off + length (gdom g) \<le> length ?M"
    and slice: "take (length (gdom g)) (drop off ?M) = gdom g"
    by (simp_all add: l)
  from snoc.prems(2) have con: "constructed g" and im: "box_image F g"
    and rest: "\<forall>l \<in> set ls. constructed (fst l) \<and> box_image F (fst l)"
    by (simp_all add: l)
  from snoc.IH [OF wt rest snoc.prems(3,4)] obtain X X' where
    X: "functor_loop F scan (ident F S) ls = Inr X"
    and X': "functor_loop F scan r ls = Inr X'"
    and rX: "seq F r X = Inr X'"
    by blast
  have "cod_of F (ident F S) = S"
    by (rule monoidalD(6) [OF laws])
  from functor_loop_typed [OF laws wt rest snoc.prems(3) this] X
  have MX: "functor_ty F ?M = Inr (cod_of F X)" by simp
  from functor_loop_typed [OF laws wt rest snoc.prems(3,4)] X'
  have MX': "functor_ty F ?M = Inr (cod_of F X')" by simp
  from MX MX' have same: "cod_of F X' = cod_of F X" by simp
  from layer_typed [OF laws range slice con im MX] obtain A img B where
    A: "functor_ty F (take off ?M) = Inr A"
    and img: "functor_box F g = Inr img"
    and B: "functor_ty F (drop (off + length (gdom g)) ?M) = Inr B"
    and dom: "dom_of F (par F (par F (ident F A) img) (ident F B)) = cod_of F X"
    by blast
  let ?L = "par F (par F (ident F A) img) (ident F B)"
  from monoidalD(7) [OF laws dom [symmetric]] obtain e where e: "seq F X ?L = Inr e"
    by blast
  from same dom have "cod_of F X' = dom_of F ?L" by simp
  from monoidalD(7) [OF laws this] obtain e' where e': "seq F X' ?L = Inr e'"
    by blast
  from monoidalD(9) [OF laws rX e] e' have re: "seq F r e = Inr e'"
    by simp
  have "functor_loop F scan (ident F S) (ls @ [l]) = Inr e"
    by (simp add: functor_loop_append X l A img B e)
  moreover have "functor_loop F scan r (ls @ [l]) = Inr e'"
    by (simp add: functor_loop_append X' l A img B e')
  ultimately show ?case
    using re by blast
qed

lemma scan_type_right:
  "well_typed_from s ls cod \<Longrightarrow> scan_type (s @ u) ls = scan_type s ls @ u"
proof (induction ls arbitrary: s)
  case Nil
  then show ?case by simp
next
  case (Cons l ls)
  obtain box off where l: "l = (box, off)" by (cases l)
  let ?s' = "take off s @ gcod box @ drop (off + length (gdom box)) s"
  from Cons.prems have range: "off + length (gdom box) \<le> length s"
    and wt: "well_typed_from ?s' ls cod"
    by (simp_all add: l)
  have "take off (s @ u) @ gcod box @ drop (off + length (gdom box)) (s @ u) = ?s' @ u"
    using range by simp
  then show ?case
    unfolding l scan_type.simps using Cons.IH [OF wt] by (simp only:)
qed

text \<open>The image of the layers with a type \<open>X\<close> added on their right is their image tensored
  with the identity on the image of \<open>X\<close>.\<close>

lemma functor_loop_right:
  assumes laws: "monoidal (ob_factory F) (ar_factory F)" and X: "functor_ty F X = Inr B"
  shows "well_typed_from scan ls cod \<Longrightarrow> functor_loop F scan r ls = Inr e \<Longrightarrow>
    functor_loop F (scan @ X) (par F r (ident F B)) ls = Inr (par F e (ident F B))"
proof (induction ls arbitrary: scan r)
  case Nil
  then show ?case by simp
next
  case (Cons l ls)
  obtain g off where l: "l = (g, off)" by (cases l)
  let ?scan' = "take off scan @ gcod g @ drop (off + length (gdom g)) scan"
  from Cons.prems(1) have range: "off + length (gdom g) \<le> length scan"
    and wt: "well_typed_from ?scan' ls cod"
    by (simp_all add: l)
  from Cons.prems(2) obtain A img Br r' where
    A: "functor_ty F (take off scan) = Inr A"
    and img: "functor_box F g = Inr img"
    and Br: "functor_ty F (drop (off + length (gdom g)) scan) = Inr Br"
    and r': "seq F r (par F (par F (ident F A) img) (ident F Br)) = Inr r'"
    and e: "functor_loop F ?scan' r' ls = Inr e"
    unfolding l by (auto split: sum.splits)
  let ?L = "par F (par F (ident F A) img) (ident F Br)"
  have tk: "take off (scan @ X) = take off scan"
    and dr: "drop (off + length (gdom g)) (scan @ X) = drop (off + length (gdom g)) scan @ X"
    using range by simp_all
  have A': "functor_ty F (take off (scan @ X)) = Inr A"
    by (simp only: tk A)
  have B': "functor_ty F (drop (off + length (gdom g)) (scan @ X)) = Inr (otimes F Br B)"
    unfolding dr functor_ty_append [OF laws] by (simp add: Br X)
  have "par F (par F (ident F A) img) (ident F (otimes F Br B))
      = par F (par F (ident F A) img) (par F (ident F Br) (ident F B))"
    by (simp only: monoidalD(12) [OF laws])
  also have "\<dots> = par F ?L (ident F B)"
    by (simp only: monoidalD(13) [OF laws])
  finally have L': "par F (par F (ident F A) img) (ident F (otimes F Br B))
      = par F ?L (ident F B)" .
  have step: "seq F (par F r (ident F B)) (par F ?L (ident F B)) = Inr (par F r' (ident F B))"
    by (rule monoidalD(14) [OF laws r'])
  have scan': "take off (scan @ X) @ gcod g @ drop (off + length (gdom g)) (scan @ X)
      = ?scan' @ X"
    by (simp only: tk dr append_assoc)
  have "functor_loop F (scan @ X) (par F r (ident F B)) ((g, off) # ls)
      = functor_loop F (?scan' @ X) (par F r' (ident F B)) ls"
    by (simp only: functor_loop.simps A' B' img L' scan' step sum.case)
  with Cons.IH [OF wt e] show ?case
    by (simp add: l)
qed

text \<open>The image of the layers with a type \<open>Y\<close> added on their left, the offsets shifted by
  its length, is their image tensored with the identity on the image of \<open>Y\<close>.\<close>

lemma functor_loop_left:
  assumes laws: "monoidal (ob_factory F) (ar_factory F)" and Y: "functor_ty F Y = Inr K"
  shows "functor_loop F scan r ls = Inr e \<Longrightarrow>
    functor_loop F (Y @ scan) (par F (ident F K) r)
        (map (\<lambda>(g, off). (g, off + length Y)) ls)
      = Inr (par F (ident F K) e)"
proof (induction ls arbitrary: scan r)
  case Nil
  then show ?case by simp
next
  case (Cons l ls)
  obtain g off where l: "l = (g, off)" by (cases l)
  let ?scan' = "take off scan @ gcod g @ drop (off + length (gdom g)) scan"
  from Cons.prems(1) obtain A img Br r' where
    A: "functor_ty F (take off scan) = Inr A"
    and img: "functor_box F g = Inr img"
    and Br: "functor_ty F (drop (off + length (gdom g)) scan) = Inr Br"
    and r': "seq F r (par F (par F (ident F A) img) (ident F Br)) = Inr r'"
    and e: "functor_loop F ?scan' r' ls = Inr e"
    unfolding l by (auto split: sum.splits)
  let ?L = "par F (par F (ident F A) img) (ident F Br)"
  have tk: "take (off + length Y) (Y @ scan) = Y @ take off scan"
    and dr: "drop (off + length Y + length (gdom g)) (Y @ scan)
        = drop (off + length (gdom g)) scan"
    by simp_all
  have A': "functor_ty F (take (off + length Y) (Y @ scan)) = Inr (otimes F K A)"
    unfolding tk functor_ty_append [OF laws] by (simp add: A Y)
  have B': "functor_ty F (drop (off + length Y + length (gdom g)) (Y @ scan)) = Inr Br"
    by (simp only: dr Br)
  have "par F (par F (ident F (otimes F K A)) img) (ident F Br)
      = par F (par F (par F (ident F K) (ident F A)) img) (ident F Br)"
    by (simp only: monoidalD(12) [OF laws])
  also have "\<dots> = par F (par F (ident F K) (par F (ident F A) img)) (ident F Br)"
    by (simp only: monoidalD(13) [OF laws])
  also have "\<dots> = par F (ident F K) ?L"
    by (simp only: monoidalD(13) [OF laws])
  finally have L': "par F (par F (ident F (otimes F K A)) img) (ident F Br)
      = par F (ident F K) ?L" .
  have step: "seq F (par F (ident F K) r) (par F (ident F K) ?L) = Inr (par F (ident F K) r')"
    by (rule monoidalD(15) [OF laws r'])
  have scan': "take (off + length Y) (Y @ scan) @ gcod g
        @ drop (off + length Y + length (gdom g)) (Y @ scan)
      = Y @ ?scan'"
    by (simp only: tk dr append_assoc)
  have "functor_loop F (Y @ scan) (par F (ident F K) r)
        ((g, off + length Y) # map (\<lambda>(g, off). (g, off + length Y)) ls)
      = functor_loop F (Y @ ?scan') (par F (ident F K) r')
          (map (\<lambda>(g, off). (g, off + length Y)) ls)"
    by (simp only: functor_loop.simps A' B' img L' scan' step sum.case)
  with Cons.IH [OF e] show ?case
    by (simp add: l)
qed

lemma well_typed_from_left:
  "well_typed_from s ls cod \<Longrightarrow>
   well_typed_from (Y @ s) (map (\<lambda>(g, off). (g, off + length Y)) ls) (Y @ cod)"
proof (induction ls arbitrary: s)
  case Nil
  then show ?case by simp
next
  case (Cons l ls)
  obtain g off where l: "l = (g, off)" by (cases l)
  let ?s' = "take off s @ gcod g @ drop (off + length (gdom g)) s"
  from Cons.prems have range: "off + length (gdom g) \<le> length s"
    and slice: "take (length (gdom g)) (drop off s) = gdom g"
    and wt: "well_typed_from ?s' ls cod"
    by (simp_all add: l)
  have "take (off + length Y) (Y @ s) @ gcod g
        @ drop (off + length Y + length (gdom g)) (Y @ s) = Y @ ?s'"
    by simp
  with Cons.IH [OF wt] range slice show ?case
    by (simp add: l)
qed

text \<open>The image of a well-formed diagram, all of whose generators have images, is defined
  and goes from the image of its domain to the image of its codomain.\<close>

lemma functor_diagram_typed:
  assumes laws: "monoidal (ob_factory F) (ar_factory F)"
    and wf: "well_formed d" and im: "has_images F d"
  shows "\<exists>e. functor_diagram F d = Inr e
    \<and> functor_ty F (ddom d) = Inr (dom_of F e)
    \<and> functor_ty F (dcod d) = Inr (cod_of F e)"
proof -
  from im functor_ty_defined [of "ddom d" F] obtain a where
    a: "functor_ty F (ddom d) = Inr a"
    by (auto simp add: has_images_def)
  from wf have wt: "well_typed_from (ddom d) (zip (boxes d) (offsets d)) (dcod d)"
    by (simp add: well_formed_def well_typed_def)
  have good: "\<forall>l \<in> set (zip (boxes d) (offsets d)). constructed (fst l) \<and> box_image F (fst l)"
    using wf im
    by (auto simp add: well_formed_def has_images_def list_all_iff dest: set_zip_leftD)
  have "cod_of F (ident F a) = a"
    by (rule monoidalD(6) [OF laws])
  from functor_loop_typed [OF laws wt good a this] obtain e where
    e: "functor_loop F (ddom d) (ident F a) (zip (boxes d) (offsets d)) = Inr e"
    and de: "dom_of F e = dom_of F (ident F a)"
    and ce: "functor_ty F (dcod d) = Inr (cod_of F e)"
    by blast
  from de have "dom_of F e = a"
    by (simp add: monoidalD(5) [OF laws])
  with a e ce show ?thesis
    by (simp add: functor_diagram_def)
qed

lemma functor_then:
  assumes laws: "monoidal (ob_factory F) (ar_factory F)"
    and wf1: "well_formed d1" and wf2: "well_formed d2"
    and im1: "has_images F d1" and im2: "has_images F d2"
    and comp: "dcod d1 = ddom d2"
    and e1: "functor_diagram F d1 = Inr e1" and e2: "functor_diagram F d2 = Inr e2"
  shows "\<exists>d12 e12. then_d d1 d2 = Inr d12 \<and> seq F e1 e2 = Inr e12
    \<and> functor_diagram F d12 = Inr e12"
proof -
  let ?ls1 = "zip (boxes d1) (offsets d1)" and ?ls2 = "zip (boxes d2) (offsets d2)"
  let ?d12 = "\<lparr>ddom = ddom d1, dcod = dcod d2, boxes = boxes d1 @ boxes d2,
               offsets = offsets d1 @ offsets d2\<rparr>"
  have d12: "then_d d1 d2 = Inr ?d12"
    using comp by (simp add: then_d_def)
  from wf1 have len1: "length (offsets d1) = length (boxes d1)"
    and wt1: "well_typed_from (ddom d1) ?ls1 (dcod d1)"
    by (simp_all add: well_formed_def well_typed_def)
  from wf2 have wt2: "well_typed_from (ddom d2) ?ls2 (dcod d2)"
    by (simp add: well_formed_def well_typed_def)
  have good2: "\<forall>l \<in> set ?ls2. constructed (fst l) \<and> box_image F (fst l)"
    using wf2 im2
    by (auto simp add: well_formed_def has_images_def list_all_iff dest: set_zip_leftD)
  from functor_diagram_typed [OF laws wf1 im1] e1 have
    c1: "functor_ty F (dcod d1) = Inr (cod_of F e1)"
    by simp
  from e1 obtain a where a: "functor_ty F (ddom d1) = Inr a"
    and l1: "functor_loop F (ddom d1) (ident F a) ?ls1 = Inr e1"
    by (auto simp add: functor_diagram_def split: sum.splits)
  from c1 comp have s2: "functor_ty F (ddom d2) = Inr (cod_of F e1)"
    by simp
  from functor_loop_rebase [OF laws wt2 good2 s2 refl] obtain e e' where
    e: "functor_loop F (ddom d2) (ident F (cod_of F e1)) ?ls2 = Inr e"
    and e': "functor_loop F (ddom d2) e1 ?ls2 = Inr e'"
    and re: "seq F e1 e = Inr e'"
    by blast
  from e2 s2 e have "e = e2"
    by (simp add: functor_diagram_def)
  with re have seq: "seq F e1 e2 = Inr e'" by simp
  have zip12: "zip (boxes d1 @ boxes d2) (offsets d1 @ offsets d2) = ?ls1 @ ?ls2"
    using len1 by simp
  have "functor_diagram F ?d12 = functor_loop F (ddom d1) (ident F a) (?ls1 @ ?ls2)"
    by (simp add: functor_diagram_def a zip12 del: zip_append)
  also have "\<dots> = functor_loop F (scan_type (ddom d1) ?ls1) e1 ?ls2"
    by (simp add: functor_loop_append l1)
  also have "scan_type (ddom d1) ?ls1 = ddom d2"
    using well_typed_from_scan [OF wt1] comp by simp
  finally have "functor_diagram F ?d12 = Inr e'"
    using e' by simp
  with d12 seq show ?thesis by blast
qed

lemma functor_tensor:
  assumes laws: "monoidal (ob_factory F) (ar_factory F)"
    and wf1: "well_formed d1" and wf2: "well_formed d2"
    and im1: "has_images F d1" and im2: "has_images F d2"
    and e1: "functor_diagram F d1 = Inr e1" and e2: "functor_diagram F d2 = Inr e2"
  shows "functor_diagram F (tensor d1 d2) = Inr (par F e1 e2)"
proof -
  let ?ls1 = "zip (boxes d1) (offsets d1)" and ?ls2 = "zip (boxes d2) (offsets d2)"
  let ?sh = "map (\<lambda>(g, off). (g, off + length (dcod d1))) ?ls2"
  from wf1 have len1: "length (offsets d1) = length (boxes d1)"
    and wt1: "well_typed_from (ddom d1) ?ls1 (dcod d1)"
    by (simp_all add: well_formed_def well_typed_def)
  from wf2 have wt2: "well_typed_from (ddom d2) ?ls2 (dcod d2)"
    by (simp add: well_formed_def well_typed_def)
  from functor_diagram_typed [OF laws wf1 im1] e1 have
    a1: "functor_ty F (ddom d1) = Inr (dom_of F e1)"
    and c1: "functor_ty F (dcod d1) = Inr (cod_of F e1)"
    by simp_all
  from functor_diagram_typed [OF laws wf2 im2] e2 have
    a2: "functor_ty F (ddom d2) = Inr (dom_of F e2)"
    by simp
  let ?A = "dom_of F e1" and ?B = "dom_of F e2" and ?K = "cod_of F e1"
  from e1 a1 have l1: "functor_loop F (ddom d1) (ident F ?A) ?ls1 = Inr e1"
    by (simp add: functor_diagram_def)
  from e2 a2 have l2: "functor_loop F (ddom d2) (ident F ?B) ?ls2 = Inr e2"
    by (simp add: functor_diagram_def)
  have zip12: "zip (boxes d1 @ boxes d2)
        (offsets d1 @ map (\<lambda>n. n + length (dcod d1)) (offsets d2))
      = ?ls1 @ ?sh"
    using len1 by (simp add: zip_map2)
  have dom12: "functor_ty F (ddom d1 @ ddom d2) = Inr (otimes F ?A ?B)"
    unfolding functor_ty_append [OF laws] by (simp add: a1 a2)
  have "functor_diagram F (tensor d1 d2)
      = functor_loop F (ddom d1 @ ddom d2) (ident F (otimes F ?A ?B)) (?ls1 @ ?sh)"
    by (simp add: functor_diagram_def tensor_def dom12 zip12 del: zip_append)
  also have "ident F (otimes F ?A ?B) = par F (ident F ?A) (ident F ?B)"
    by (simp only: monoidalD(12) [OF laws])
  also have "functor_loop F (ddom d1 @ ddom d2) (par F (ident F ?A) (ident F ?B)) (?ls1 @ ?sh)
      = functor_loop F (scan_type (ddom d1 @ ddom d2) ?ls1) (par F e1 (ident F ?B)) ?sh"
    by (simp add: functor_loop_append functor_loop_right [OF laws a2 wt1 l1])
  also have "scan_type (ddom d1 @ ddom d2) ?ls1 = dcod d1 @ ddom d2"
    by (simp add: scan_type_right [OF wt1] well_typed_from_scan [OF wt1])
  finally have start: "functor_diagram F (tensor d1 d2)
      = functor_loop F (dcod d1 @ ddom d2) (par F e1 (ident F ?B)) ?sh" .
  have left: "functor_loop F (dcod d1 @ ddom d2) (par F (ident F ?K) (ident F ?B)) ?sh
      = Inr (par F (ident F ?K) e2)"
    by (rule functor_loop_left [OF laws c1 l2])
  have wt_sh: "well_typed_from (dcod d1 @ ddom d2) ?sh (dcod d1 @ dcod d2)"
    by (rule well_typed_from_left [OF wt2])
  have good: "\<forall>l \<in> set ?sh. constructed (fst l) \<and> box_image F (fst l)"
    using wf2 im2
    by (auto simp add: well_formed_def has_images_def list_all_iff dest: set_zip_leftD)
  have scan: "functor_ty F (dcod d1 @ ddom d2) = Inr (otimes F ?K ?B)"
    unfolding functor_ty_append [OF laws] by (simp add: c1 a2)
  have codr: "cod_of F (par F e1 (ident F ?B)) = otimes F ?K ?B"
    by (simp add: monoidalD(11) [OF laws] monoidalD(6) [OF laws])
  from functor_loop_rebase [OF laws wt_sh good scan codr] obtain e e' where
    e: "functor_loop F (dcod d1 @ ddom d2) (ident F (otimes F ?K ?B)) ?sh = Inr e"
    and e': "functor_loop F (dcod d1 @ ddom d2) (par F e1 (ident F ?B)) ?sh = Inr e'"
    and re: "seq F (par F e1 (ident F ?B)) e = Inr e'"
    by blast
  have "ident F (otimes F ?K ?B) = par F (ident F ?K) (ident F ?B)"
    by (simp only: monoidalD(12) [OF laws])
  with e left have "e = par F (ident F ?K) e2"
    by simp
  with re monoidalD(16) [OF laws, of e1 e2] have "e' = par F e1 e2"
    by simp
  with start e' show ?thesis
    by simp
qed

text \<open>On a box taken alone the layers give back the image of the box, when that image starts
  from the image of the domain of the box.\<close>

lemma functor_box_diagram:
  assumes "ob_factory F = Ty_factory" and "ar_factory F = Diagram_factory"
    and "\<not> is_Cup g" and "\<not> is_Cap g" and "ar F g = Inr img"
    and "functor_ty F (gdom g) = Inr (ddom img)"
  shows "functor_diagram F (box_diagram g) = Inr img"
proof -
  have "tensor (tensor (Id_diagram []) img) (Id_diagram []) = img"
    by (simp add: tensor_def Id_diagram_def)
  moreover have "then_d (Id_diagram (ddom img)) img = Inr img"
    by (simp add: then_d_def Id_diagram_def)
  ultimately show ?thesis
    using assms
    by (simp add: functor_diagram_def box_diagram_def functor_box_def functor_ty_Nil
        Ty_factory_def Diagram_factory_def)
qed

text \<open>The doctest of \<open>class Functor\<close>: the image of the sentence has the normal form
  \<open>Alice >> Id(n) @ Bob >> love_box\<close>.\<close>

lemma doctest_functor_normal_form:
  "\<exists>d e. then_d doctest_words doctest_grammar = Inr d
     \<and> functor_diagram (doctest_functor (\<lambda>g. Inl KeyError)) d = Inr e
     \<and> normal_form (\<lambda>d. Inr []) e = Some (Inr
          \<lparr>ddom = [], dcod = [Ob ''s'' 0],
           boxes = [AtomicBox ''Alice'' [] [Ob ''n'' 0] False,
                    AtomicBox ''Bob'' [] [Ob ''n'' 0] False,
                    AtomicBox ''loves'' [Ob ''n'' 0, Ob ''n'' 0] [Ob ''s'' 0] False],
           offsets = [0, 1, 0]\<rparr>)"
proof -
  have "case then_d doctest_words doctest_grammar of
          Inl _ \<Rightarrow> False
        | Inr d \<Rightarrow> (case functor_diagram (doctest_functor (\<lambda>g. Inl KeyError)) d of
             Inl _ \<Rightarrow> False
           | Inr e \<Rightarrow> normal_form (\<lambda>d. Inr []) e = Some (Inr
               \<lparr>ddom = [], dcod = [Ob ''s'' 0],
                boxes = [AtomicBox ''Alice'' [] [Ob ''n'' 0] False,
                         AtomicBox ''Bob'' [] [Ob ''n'' 0] False,
                         AtomicBox ''loves'' [Ob ''n'' 0, Ob ''n'' 0] [Ob ''s'' 0] False],
                offsets = [0, 1, 0]\<rparr>))"
    by code_simp
  thus ?thesis
    by (auto split: sum.splits)
qed

text \<open>C2, as stated, fails: the diagrams \<open>f\<close> and \<open>Id(b)\<close> are well formed and composable, and
  the functor has an image for \<open>f\<close>, but that image need not go from the image of \<open>a\<close> to the
  image of \<open>b\<close>. Then \<open>F(f >> Id(b))\<close> is the image of \<open>f\<close>, while \<open>F(f) >> F(Id(b))\<close> raises;
  and \<open>F(f @ h)\<close> raises, while \<open>F(f) @ F(h)\<close> does not.\<close>

theorem C2_functor_counterexample:
  "well_formed (box_diagram (AtomicBox ''f'' [Ob ''a'' 0] [Ob ''b'' 0] False))
   \<and> well_formed (box_diagram (AtomicBox ''h'' [Ob ''a'' 0] [Ob ''a'' 0] False))
   \<and> well_formed (Id_diagram [Ob ''b'' 0])
   \<and> then_d (box_diagram (AtomicBox ''f'' [Ob ''a'' 0] [Ob ''b'' 0] False))
        (Id_diagram [Ob ''b'' 0])
      = Inr (box_diagram (AtomicBox ''f'' [Ob ''a'' 0] [Ob ''b'' 0] False))
   \<and> functor_diagram (untyped_functor (\<lambda>g. Inl KeyError))
        (box_diagram (AtomicBox ''f'' [Ob ''a'' 0] [Ob ''b'' 0] False))
      = Inr (box_diagram (AtomicBox ''g'' [Ob ''a'' 0] [Ob ''c'' 0, Ob ''c'' 0] False))
   \<and> functor_diagram (untyped_functor (\<lambda>g. Inl KeyError)) (Id_diagram [Ob ''b'' 0])
      = Inr (Id_diagram [Ob ''b'' 0])
   \<and> then_d (box_diagram (AtomicBox ''g'' [Ob ''a'' 0] [Ob ''c'' 0, Ob ''c'' 0] False))
        (Id_diagram [Ob ''b'' 0]) = Inl AxiomError
   \<and> functor_diagram (untyped_functor (\<lambda>g. Inl KeyError))
        (box_diagram (AtomicBox ''h'' [Ob ''a'' 0] [Ob ''a'' 0] False))
      = Inr (box_diagram (AtomicBox ''h'' [Ob ''a'' 0] [Ob ''a'' 0] False))
   \<and> functor_diagram (untyped_functor (\<lambda>g. Inl KeyError))
        (tensor (box_diagram (AtomicBox ''f'' [Ob ''a'' 0] [Ob ''b'' 0] False))
                (box_diagram (AtomicBox ''h'' [Ob ''a'' 0] [Ob ''a'' 0] False)))
      = Inl AxiomError"
  by code_simp

text \<open>C2, amended: let the target of the rigid functor \<open>F\<close> obey the laws of a monoidal
  category with cups and caps (as \<open>Ty\<close> and \<open>Diagram\<close> do), let \<open>d1\<close> and \<open>d2\<close> be well-formed
  diagrams, and let \<open>F\<close> have an image for each of their generators, the image of a box going
  from the image of its domain to the image of its codomain. Then \<open>F(d1)\<close> and \<open>F(d2)\<close> are
  defined and \<open>F(d1 @ d2) == F(d1) @ F(d2)\<close>; and if \<open>d1.cod == d2.dom\<close> then \<open>d1 >> d2\<close> and
  \<open>F(d1) >> F(d2)\<close> are defined and \<open>F(d1 >> d2) == F(d1) >> F(d2)\<close>. Nothing is asked of the
  images of the cups and caps of the diagrams: they are built by the \<open>cups\<close> and \<open>caps\<close> of
  the target.\<close>

theorem C2_functor_homomorphism:
  assumes "monoidal (ob_factory F) (ar_factory F)"
    and "well_formed d1" and "well_formed d2"
    and "has_images F d1" and "has_images F d2"
  shows "\<exists>e1 e2. functor_diagram F d1 = Inr e1 \<and> functor_diagram F d2 = Inr e2
    \<and> functor_diagram F (tensor d1 d2) = Inr (par F e1 e2)
    \<and> (dcod d1 = ddom d2 \<longrightarrow>
         (\<exists>d12 e12. then_d d1 d2 = Inr d12 \<and> seq F e1 e2 = Inr e12
            \<and> functor_diagram F d12 = Inr e12))"
proof -
  from functor_diagram_typed [OF assms(1,2,4)] obtain e1 where
    e1: "functor_diagram F d1 = Inr e1" by blast
  from functor_diagram_typed [OF assms(1,3,5)] obtain e2 where
    e2: "functor_diagram F d2 = Inr e2" by blast
  have t: "functor_diagram F (tensor d1 d2) = Inr (par F e1 e2)"
    by (rule functor_tensor [OF assms e1 e2])
  have "\<exists>d12 e12. then_d d1 d2 = Inr d12 \<and> seq F e1 e2 = Inr e12
      \<and> functor_diagram F d12 = Inr e12" if "dcod d1 = ddom d2"
    by (rule functor_then [OF assms that e1 e2])
  with e1 e2 t show ?thesis by blast
qed

theorem C2_functor_homomorphism_witness:
  "well_formed doctest_words \<and> well_formed doctest_grammar
   \<and> dcod doctest_words = ddom doctest_grammar
   \<and> (\<exists>e1 e2 d12 e12.
        functor_diagram (doctest_functor (\<lambda>g. Inl KeyError)) doctest_words = Inr e1
      \<and> functor_diagram (doctest_functor (\<lambda>g. Inl KeyError)) doctest_grammar = Inr e2
      \<and> functor_diagram (doctest_functor (\<lambda>g. Inl KeyError))
          (tensor doctest_words doctest_grammar) = Inr (tensor e1 e2)
      \<and> then_d doctest_words doctest_grammar = Inr d12 \<and> then_d e1 e2 = Inr e12
      \<and> functor_diagram (doctest_functor (\<lambda>g. Inl KeyError)) d12 = Inr e12)"
proof -
  let ?F = "doctest_functor (\<lambda>g. Inl KeyError)"
  have fac: "ob_factory ?F = Ty_factory" "ar_factory ?F = Diagram_factory"
    by (simp_all add: doctest_functor_def)
  have laws: "monoidal (ob_factory ?F) (ar_factory ?F)"
    unfolding fac by (rule Diagram_monoidal)
  have wf1: "well_formed doctest_words" and wf2: "well_formed doctest_grammar"
    by code_simp+
  have comp: "dcod doctest_words = ddom doctest_grammar"
    by code_simp
  have ty: "functor_ty ?F [] = Inr []"
    "functor_ty ?F [Ob ''n'' 0] = Inr [Ob ''n'' 0]"
    "functor_ty ?F [Ob ''n'' 1, Ob ''s'' 0, Ob ''n'' (- 1)]
       = Inr [Ob ''n'' 1, Ob ''s'' 0, Ob ''n'' (- 1)]"
    by code_simp+
  have im1: "has_images ?F doctest_words"
    unfolding has_images_def box_image_def
    using ty by (simp add: doctest_words_def doctest_functor_def box_diagram_def
        Diagram_factory_def)
  have im2: "has_images ?F doctest_grammar"
    unfolding has_images_def box_image_def
    by (simp add: doctest_grammar_def doctest_functor_def Ob_def)
  from C2_functor_homomorphism [OF laws wf1 wf2 im1 im2] comp wf1 wf2 fac show ?thesis
    by (auto simp add: Diagram_factory_def)
qed

end
